theory Spec2Isabelle
  imports Main
begin

section \<open>Python strings\<close>

text \<open>
  A Python \<open>str\<close> is a sequence of Unicode code points, and \<open>len\<close>, \<open>in\<close>, \<open>split\<close>,
  \<open>strip\<close> and the regular expression engine all work on code points. A string is
  therefore a list of code points (natural numbers), not a list of bytes.
\<close>

type_synonym pystr = "nat list"

definition py :: "string \<Rightarrow> pystr" where
  "py s = map of_char s"

definition NL :: nat where "NL = 10"
definition SPACE :: nat where "SPACE = 32"
definition DOT :: nat where "DOT = 46"
definition SLASH :: nat where "SLASH = 47"

text \<open>
  The four tree-drawing glyphs of the source: U+251C (tee), U+2514 (corner),
  U+2502 (vertical bar), U+2500 (horizontal dash).
\<close>

definition TEE :: nat where "TEE = 9500"
definition CORNER :: nat where "CORNER = 9492"
definition VBAR :: nat where "VBAR = 9474"
definition DASH :: nat where "DASH = 9472"

text \<open>
  \<open>str.isspace\<close> on one code point; \<open>str.strip()\<close> without argument and the regular
  expression class \<open>\s\<close> on a \<open>str\<close> pattern use the same set.
\<close>

definition isspace :: "nat \<Rightarrow> bool" where
  "isspace c \<longleftrightarrow>
     (9 \<le> c \<and> c \<le> 13) \<or> (28 \<le> c \<and> c \<le> 32) \<or> c = 133 \<or> c = 160 \<or> c = 5760 \<or>
     (8192 \<le> c \<and> c \<le> 8202) \<or> c = 8232 \<or> c = 8233 \<or> c = 8239 \<or> c = 8287 \<or> c = 12288"

definition lstrip :: "pystr \<Rightarrow> pystr" where
  "lstrip s = dropWhile isspace s"

definition rstrip :: "pystr \<Rightarrow> pystr" where
  "rstrip s = rev (dropWhile isspace (rev s))"

definition strip :: "pystr \<Rightarrow> pystr" where
  "strip s = lstrip (rstrip s)"

text \<open>\<open>s.rstrip(chars)\<close>: drop trailing code points that occur in \<open>chars\<close>.\<close>

definition rstrip_chars :: "pystr \<Rightarrow> pystr \<Rightarrow> pystr" where
  "rstrip_chars chars s = rev (dropWhile (\<lambda>c. c \<in> set chars) (rev s))"

text \<open>\<open>s.split(sep)\<close> for a separator of one code point: never the empty list.\<close>

fun split :: "nat \<Rightarrow> pystr \<Rightarrow> pystr list" where
  "split sep [] = [[]]"
| "split sep (c # cs) =
     (if c = sep then [] # split sep cs
      else (case split sep cs of
              [] \<Rightarrow> [[c]]
            | p # ps \<Rightarrow> (c # p) # ps))"

text \<open>\<open>s.replace(old, new)\<close> where both are one code point.\<close>

definition replace :: "nat \<Rightarrow> nat \<Rightarrow> pystr \<Rightarrow> pystr" where
  "replace old new s = map (\<lambda>c. if c = old then new else c) s"

text \<open>\<open>k in s\<close> for two strings: \<open>k\<close> occurs in \<open>s\<close> as a contiguous run.\<close>

fun is_substr :: "pystr \<Rightarrow> pystr \<Rightarrow> bool" where
  "is_substr k [] = (k = [])"
| "is_substr k (c # cs) = (take (length k) (c # cs) = k \<or> is_substr k cs)"

section \<open>The Tree Model\<close>

text \<open>
  A Python \<open>dict\<close> keeps insertion order and has unique keys: an association list in
  which assignment to a present key replaces the value in place and assignment to an
  absent key appends. A content value is a \<open>str\<close> (a file) or a \<open>dict\<close> (a directory).
\<close>

datatype node = File pystr | Dir "(pystr \<times> node) list"

datatype error = TypeError | KeyError | IndexError | OSError

fun dict_set :: "('k \<times> 'v) list \<Rightarrow> 'k \<Rightarrow> 'v \<Rightarrow> ('k \<times> 'v) list" where
  "dict_set [] k v = [(k, v)]"
| "dict_set (p # ps) k v = (if fst p = k then (k, v) # ps else p # dict_set ps k v)"

definition dict_get :: "('k \<times> 'v) list \<Rightarrow> 'k \<Rightarrow> 'v option" where
  "dict_get m k = map_of m k"

definition dict_has :: "('k \<times> 'v) list \<Rightarrow> 'k \<Rightarrow> bool" where
  "dict_has m k \<longleftrightarrow> map_of m k \<noteq> None"

text \<open>
  In the Path Parser the variable \<open>current\<close> holds whatever was stored under the
  previous segment: a \<open>dict\<close> or a \<open>str\<close>. The three operations the loop applies to it
  are modelled on both: \<open>part in current\<close> is key membership on a \<open>dict\<close> and substring
  test on a \<open>str\<close>; \<open>current[part] = v\<close> raises \<open>TypeError\<close> on a \<open>str\<close>;
  \<open>current[part]\<close> with a \<open>str\<close> index raises \<open>TypeError\<close> on a \<open>str\<close> and \<open>KeyError\<close>
  on a \<open>dict\<close> without the key.
\<close>

fun py_contains :: "pystr \<Rightarrow> node \<Rightarrow> bool" where
  "py_contains k (Dir m) = dict_has m k"
| "py_contains k (File s) = is_substr k s"

fun py_setitem :: "node \<Rightarrow> pystr \<Rightarrow> node \<Rightarrow> error + node" where
  "py_setitem (Dir m) k v = Inr (Dir (dict_set m k v))"
| "py_setitem (File s) k v = Inl TypeError"

fun py_getitem :: "node \<Rightarrow> pystr \<Rightarrow> error + node" where
  "py_getitem (Dir m) k = (case dict_get m k of None \<Rightarrow> Inl KeyError | Some v \<Rightarrow> Inr v)"
| "py_getitem (File s) k = Inl TypeError"

section \<open>The Path Parser: \<open>parse_folder_structure\<close>\<close>

text \<open>
  The loop over \<open>enumerate(parts)\<close>. The dictionaries form a tree without sharing, so
  the in-place mutation of the dictionary reached through \<open>current = current[part]\<close>
  is the update of the child followed by storing it back under the same key, which
  keeps the key's position.
\<close>

fun walk_parts :: "bool \<Rightarrow> pystr list \<Rightarrow> node \<Rightarrow> error + node" where
  "walk_parts is_file [] current = Inr current"
| "walk_parts is_file [part] current =
     (if is_file then py_setitem current part (File [])
      else if \<not> py_contains part current then py_setitem current part (Dir [])
      else Inr current)"
| "walk_parts is_file (part # rest) current =
     (case (if \<not> py_contains part current then py_setitem current part (Dir [])
            else Inr current) of
        Inl e \<Rightarrow> Inl e
      | Inr cur1 \<Rightarrow>
          (case py_getitem cur1 part of
             Inl e \<Rightarrow> Inl e
           | Inr child \<Rightarrow>
               (case walk_parts is_file rest child of
                  Inl e \<Rightarrow> Inl e
                | Inr child' \<Rightarrow> py_setitem cur1 part child')))"

text \<open>The four \<open>replace\<close> calls over \<open>tree_chars\<close>, in the order of the list.\<close>

definition replace_tree_chars :: "pystr \<Rightarrow> pystr" where
  "replace_tree_chars s =
     replace DASH SPACE (replace VBAR SPACE (replace CORNER SPACE (replace TEE SPACE s)))"

definition is_file_line :: "pystr \<Rightarrow> bool" where
  "is_file_line clean_line =
     (if SLASH \<in> set clean_line then DOT \<in> set (last (split SLASH clean_line))
      else DOT \<in> set clean_line)"

text \<open>
  The body of the loop for a non-empty \<open>clean_line\<close>. The value \<open>indent_level\<close> of the
  source is computed by total operations and never read, so it is left out.
\<close>

definition place_entry :: "pystr \<Rightarrow> node \<Rightarrow> error + node" where
  "place_entry clean_line root =
     (if SLASH \<in> set clean_line
      then walk_parts (is_file_line clean_line) (split SLASH clean_line) root
      else if is_file_line clean_line then py_setitem root clean_line (File [])
      else if \<not> py_contains clean_line root then py_setitem root clean_line (Dir [])
      else Inr root)"

definition path_line :: "pystr \<Rightarrow> node \<Rightarrow> error + node" where
  "path_line line0 root =
     (let line = rstrip line0 in
      if line = [] then Inr root
      else let clean_line = strip (replace_tree_chars line) in
        if clean_line = [] then Inr root
        else place_entry clean_line root)"

fun path_lines :: "pystr list \<Rightarrow> node \<Rightarrow> error + node" where
  "path_lines [] root = Inr root"
| "path_lines (line # rest) root =
     (case path_line line root of
        Inl e \<Rightarrow> Inl e
      | Inr root' \<Rightarrow> path_lines rest root')"

definition parse_folder_structure :: "pystr \<Rightarrow> error + node" where
  "parse_folder_structure text_input = path_lines (split NL (strip text_input)) (Dir [])"

text \<open>
  Reading a Tree Model along a list of names: the value stored at that path, if the
  path leads through directories only. This is the observation the statements about
  the Path Parser are written in.
\<close>

fun lookup_path :: "node \<Rightarrow> pystr list \<Rightarrow> node option" where
  "lookup_path n [] = Some n"
| "lookup_path (File s) (k # ks) = None"
| "lookup_path (Dir m) (k # ks) =
     (case dict_get m k of None \<Rightarrow> None | Some v \<Rightarrow> lookup_path v ks)"

section \<open>The Indent Parser: \<open>parse_tree_structure\<close>\<close>

text \<open>
  The Indent Parser keeps references to the dictionaries it has created on a stack and
  mutates the one on top, while the same dictionary is also reachable from its parent.
  The model makes the sharing explicit: a heap of dictionaries, addressed by their
  index in allocation order, whose values are strings or references.
\<close>

datatype val = Str pystr | Ref nat

type_synonym pydict = "(pystr \<times> val) list"

record tstate =
  heap :: "pydict list"
  stack :: "val list"
  path_stack :: "pystr list"

text \<open>Before the loop: \<open>stack = [{}]\<close> and \<open>path_stack = [""]\<close>.\<close>

definition init_state :: tstate where
  "init_state = \<lparr>heap = [[]], stack = [Ref 0], path_stack = [[]]\<rparr>"

definition is_glyph :: "nat \<Rightarrow> bool" where
  "is_glyph c \<longleftrightarrow> c = VBAR \<or> c = TEE \<or> c = CORNER \<or> c = DASH"

text \<open>
  \<open>re.sub(r'[...]\s*', '', line)\<close> with the four glyphs in the class: scanning from the
  left, every glyph is removed together with the longest run of whitespace after it;
  every other code point is kept. The pattern never matches the empty string.
\<close>

function re_sub_glyphs :: "pystr \<Rightarrow> pystr" where
  "re_sub_glyphs [] = []"
| "re_sub_glyphs (c # cs) =
     (if is_glyph c then re_sub_glyphs (dropWhile isspace cs) else c # re_sub_glyphs cs)"
  by pat_completeness auto
termination
  by (relation "measure length") (auto simp: less_Suc_eq_le length_dropWhile_le)

text \<open>
  The loop over the characters of the raw line: one is added for each space or
  vertical bar, and the loop stops at the first other character.
\<close>

fun scan_indent :: "pystr \<Rightarrow> nat" where
  "scan_indent [] = 0"
| "scan_indent (c # cs) = (if c = SPACE \<or> c = VBAR then Suc (scan_indent cs) else 0)"

text \<open>
  \<open>while len(stack) > indent + 1: stack.pop(); path_stack.pop()\<close>, where \<open>pop\<close> on an
  empty list raises \<open>IndexError\<close>.
\<close>

function pop_while :: "nat \<Rightarrow> tstate \<Rightarrow> error + tstate" where
  "pop_while indent st =
     (if length (stack st) > indent + 1
      then (if stack st = [] \<or> path_stack st = [] then Inl IndexError
            else pop_while indent
                   (st\<lparr>stack := butlast (stack st), path_stack := butlast (path_stack st)\<rparr>))
      else Inr st)"
  by pat_completeness auto
termination
  by (relation "measure (\<lambda>(indent, st). length (stack st))") auto

definition endswith_slash :: "pystr \<Rightarrow> bool" where
  "endswith_slash s \<longleftrightarrow> s \<noteq> [] \<and> last s = SLASH"

definition is_dir_line :: "pystr \<Rightarrow> bool" where
  "is_dir_line clean_line \<longleftrightarrow>
     endswith_slash clean_line \<or>
     (DOT \<notin> set (last (split SLASH clean_line)) \<and> SLASH \<notin> set clean_line)"

text \<open>
  \<open>current_level[key] = value\<close> where \<open>current_level\<close> is the object on top of the
  stack: on a dictionary the entry is written in the heap, on a string it raises.
\<close>

fun heap_setitem :: "pydict list \<Rightarrow> val \<Rightarrow> pystr \<Rightarrow> val \<Rightarrow> error + pydict list" where
  "heap_setitem h (Ref a) k v = Inr (h[a := dict_set (h ! a) k v])"
| "heap_setitem h (Str s) k v = Inl TypeError"

fun heap_getitem :: "pydict list \<Rightarrow> val \<Rightarrow> pystr \<Rightarrow> error + val" where
  "heap_getitem h (Ref a) k = (case dict_get (h ! a) k of None \<Rightarrow> Inl KeyError | Some v \<Rightarrow> Inr v)"
| "heap_getitem h (Str s) k = Inl TypeError"

text \<open>
  The part of the loop body after the pops. A directory line allocates the new empty
  dictionary at the next free address, stores the reference under the name, reads it
  back and pushes it; a file line stores the empty string.
\<close>

definition tree_entry :: "pystr \<Rightarrow> tstate \<Rightarrow> error + tstate" where
  "tree_entry clean_line st =
     (if stack st = [] then Inl IndexError
      else let current_level = last (stack st) in
        if is_dir_line clean_line
        then let name = rstrip_chars [SLASH] clean_line;
                 new = length (heap st)
             in (case heap_setitem (heap st @ [[]]) current_level name (Ref new) of
                   Inl e \<Rightarrow> Inl e
                 | Inr h \<Rightarrow>
                     (case heap_getitem h current_level name of
                        Inl e \<Rightarrow> Inl e
                      | Inr d \<Rightarrow>
                          Inr (st\<lparr>heap := h, stack := stack st @ [d],
                                  path_stack := path_stack st @ [name]\<rparr>)))
        else (case heap_setitem (heap st) current_level clean_line (Str []) of
                Inl e \<Rightarrow> Inl e
              | Inr h \<Rightarrow> Inr (st\<lparr>heap := h\<rparr>)))"

definition tree_line :: "pystr \<Rightarrow> tstate \<Rightarrow> error + tstate" where
  "tree_line line st =
     (if strip line = [] then Inr st
      else let clean_line = strip (re_sub_glyphs line) in
        if clean_line = [] then Inr st
        else (case pop_while (scan_indent line) st of
                Inl e \<Rightarrow> Inl e
              | Inr st1 \<Rightarrow> tree_entry clean_line st1))"

fun tree_lines :: "pystr list \<Rightarrow> tstate \<Rightarrow> error + tstate" where
  "tree_lines [] st = Inr st"
| "tree_lines (line # rest) st =
     (case tree_line line st of
        Inl e \<Rightarrow> Inl e
      | Inr st' \<Rightarrow> tree_lines rest st')"

text \<open>\<open>return stack[0]\<close>: the returned object, together with the heap it lives in.\<close>

definition parse_tree_structure :: "pystr \<Rightarrow> error + (pydict list \<times> val)" where
  "parse_tree_structure text_input =
     (case tree_lines (split NL (strip text_input)) init_state of
        Inl e \<Rightarrow> Inl e
      | Inr st \<Rightarrow> (case stack st of [] \<Rightarrow> Inl IndexError | v # vs \<Rightarrow> Inr (heap st, v)))"

section \<open>Dictionaries\<close>

lemma dict_get_set_same: "dict_get (dict_set m k v) k = Some v"
  by (induction m) (auto simp: dict_get_def)

lemma dict_get_set_other: "k' \<noteq> k \<Longrightarrow> dict_get (dict_set m k v) k' = dict_get m k'"
  by (induction m) (auto simp: dict_get_def)

lemma dict_set_id: "dict_get m k = Some v \<Longrightarrow> dict_set m k v = m"
  by (induction m) (auto simp: dict_get_def split: if_splits)

lemma dict_has_get: "dict_has m k \<longleftrightarrow> dict_get m k \<noteq> None"
  by (simp add: dict_has_def dict_get_def)

section \<open>The Materializer: \<open>create_structure\<close>\<close>

text \<open>
  The filesystem is not part of the repository: \<open>create_structure\<close> reaches it through
  \<open>os.path.join\<close>, \<open>os.path.dirname\<close>, \<open>os.path.exists\<close>, \<open>os.makedirs\<close> and \<open>open\<close>.
  It is modelled as a POSIX filesystem without symbolic links, permissions and limits
  on names: every existing entry has a canonical path, the list of names from the root
  \<open>[]\<close>, and is a directory or a file; files have a content; relative paths start at
  the working directory \<open>cwd\<close>.
\<close>

datatype kind = KDir | KFile

type_synonym cpath = "pystr list"

record fs =
  kinds :: "cpath \<Rightarrow> kind option"
  contents :: "cpath \<Rightarrow> pystr"
  cwd :: cpath

text \<open>
  Resolving one component of a path string from the directory \<open>cur\<close>: the empty
  component (between two slashes) and \<open>.\<close> stay, \<open>..\<close> goes to the parent, and the parent
  of the root is the root; a name goes down. \<open>lookup_walk\<close> resolves the components one
  after the other, and every component is looked up in an existing directory.
\<close>

definition step :: "cpath \<Rightarrow> pystr \<Rightarrow> cpath" where
  "step cur c =
     (if c = [] \<or> c = [DOT] then cur
      else if c = [DOT, DOT] then butlast cur
      else cur @ [c])"

fun lookup_walk :: "(cpath \<Rightarrow> kind option) \<Rightarrow> cpath \<Rightarrow> pystr list \<Rightarrow> cpath option" where
  "lookup_walk K cur [] = Some cur"
| "lookup_walk K cur (c # cs) =
     (if K cur = Some KDir then lookup_walk K (step cur c) cs else None)"

definition start_of :: "fs \<Rightarrow> pystr \<Rightarrow> cpath" where
  "start_of s path = (if path \<noteq> [] \<and> hd path = SLASH then [] else cwd s)"

text \<open>
  \<open>os.path.exists(path)\<close>: the path resolves to an existing entry.
\<close>

definition path_exists :: "pystr \<Rightarrow> fs \<Rightarrow> bool" where
  "path_exists path s \<longleftrightarrow>
     path \<noteq> [] \<and>
     (case lookup_walk (kinds s) (start_of s path) (split SLASH path) of
        None \<Rightarrow> False
      | Some t \<Rightarrow> kinds s t \<noteq> None)"

text \<open>
  \<open>os.makedirs(path, exist_ok=True)\<close>: the components are resolved one after the other and
  every directory that is missing is created; an existing directory, also the last one,
  is not an error. A file on the way, or as the last component, raises \<open>OSError\<close> (one
  of its subclasses), and the directories created before that remain. The result is
  the exception, if any, and the filesystem as it is then.
\<close>

fun mk_walk :: "(cpath \<Rightarrow> kind option) \<Rightarrow> cpath \<Rightarrow> pystr list \<Rightarrow>
    error option \<times> (cpath \<Rightarrow> kind option)" where
  "mk_walk K cur [] = (if K cur = Some KDir then None else Some OSError, K)"
| "mk_walk K cur (c # cs) =
     (if K cur \<noteq> Some KDir then (Some OSError, K)
      else if K (step cur c) = None then mk_walk (K(step cur c \<mapsto> KDir)) (step cur c) cs
      else mk_walk K (step cur c) cs)"

definition makedirs :: "pystr \<Rightarrow> fs \<Rightarrow> error option \<times> fs" where
  "makedirs path s =
     (if path = [] then (Some OSError, s)
      else (case mk_walk (kinds s) (start_of s path) (split SLASH path) of
              (e, K') \<Rightarrow> (e, s\<lparr>kinds := K'\<rparr>)))"

text \<open>
  \<open>with open(path, 'w') as f: f.write(content)\<close>: the directory of the last component must
  exist; the last component must be a name, and not the name of a directory; the file
  is created or truncated and holds \<open>content\<close> afterwards. Otherwise \<open>OSError\<close> is raised
  and nothing changes.
\<close>

definition write_file :: "pystr \<Rightarrow> pystr \<Rightarrow> fs \<Rightarrow> error option \<times> fs" where
  "write_file path content s =
     (if path = [] then (Some OSError, s)
      else (case lookup_walk (kinds s) (start_of s path) (butlast (split SLASH path)) of
              None \<Rightarrow> (Some OSError, s)
            | Some par \<Rightarrow>
                if kinds s par \<noteq> Some KDir then (Some OSError, s)
                else if last (split SLASH path) = [] \<or> last (split SLASH path) = [DOT] \<or>
                        last (split SLASH path) = [DOT, DOT]
                then (Some OSError, s)
                else if kinds s (par @ [last (split SLASH path)]) = Some KDir
                then (Some OSError, s)
                else (None, s\<lparr>kinds := (kinds s)(par @ [last (split SLASH path)] \<mapsto> KFile),
                              contents := (contents s)(par @ [last (split SLASH path)] := content)\<rparr>)))"

text \<open>
  \<open>os.path.join(a, b)\<close> and \<open>os.path.dirname(p)\<close> of \<open>posixpath\<close>: an absolute \<open>b\<close>
  replaces \<open>a\<close>; the directory name is the part up to the last slash, without its
  trailing slashes unless it consists of slashes only.
\<close>

definition path_join :: "pystr \<Rightarrow> pystr \<Rightarrow> pystr" where
  "path_join a b =
     (if b \<noteq> [] \<and> hd b = SLASH then b
      else if a = [] \<or> last a = SLASH then a @ b
      else a @ [SLASH] @ b)"

definition dirname :: "pystr \<Rightarrow> pystr" where
  "dirname p =
     (let head = rev (dropWhile (\<lambda>c. c \<noteq> SLASH) (rev p)) in
      if head \<noteq> [] \<and> head \<noteq> replicate (length head) SLASH
      then rstrip_chars [SLASH] head else head)"

text \<open>
  \<open>create_structure(base_path, structure)\<close>: the loop over the items of the mapping, in
  their order. An exception ends the run, and what was created before it remains. The
  \<open>print\<close> calls have no effect on the filesystem and are left out. For a file,
  \<open>content or ''\<close> is the content itself.
\<close>

fun create_structure :: "pystr \<Rightarrow> (pystr \<times> node) list \<Rightarrow> fs \<Rightarrow> error option \<times> fs" where
  "create_structure base_path [] s = (None, s)"
| "create_structure base_path ((name, Dir m) # rest) s =
     (case makedirs (path_join base_path name) s of
        (Some e, s1) \<Rightarrow> (Some e, s1)
      | (None, s1) \<Rightarrow>
          (case create_structure (path_join base_path name) m s1 of
             (Some e, s2) \<Rightarrow> (Some e, s2)
           | (None, s2) \<Rightarrow> create_structure base_path rest s2))"
| "create_structure base_path ((name, File c) # rest) s =
     (case (if dirname (path_join base_path name) \<noteq> [] \<and>
               \<not> path_exists (dirname (path_join base_path name)) s
            then makedirs (dirname (path_join base_path name)) s
            else (None, s)) of
        (Some e, s1) \<Rightarrow> (Some e, s1)
      | (None, s1) \<Rightarrow>
          (case write_file (path_join base_path name) c s1 of
             (Some e, s2) \<Rightarrow> (Some e, s2)
           | (None, s2) \<Rightarrow> create_structure base_path rest s2))"

text \<open>
  The filesystem with the root directory only, which is also the working directory.
\<close>

definition fs0 :: fs where
  "fs0 = \<lparr>kinds = [[] \<mapsto> KDir], contents = (\<lambda>p. []), cwd = []\<rparr>"

text \<open>
  For the proofs: \<open>kinds_le K T\<close> says that \<open>T\<close> has every entry of \<open>K\<close>, with the same
  kind; \<open>resolves_dir\<close> that a list of components leads to an existing directory;
  \<open>then_do\<close> is the sequence of two steps, the second one left out after an exception;
  \<open>file_entry\<close> is the body of the loop for a file. \<open>mono_prog P\<close> says that \<open>P\<close> only adds
  entries. \<open>replay_prog P\<close> says that \<open>P\<close>, run again from a filesystem \<open>t\<close> that has all
  entries its first run has left, creates nothing, ends with an exception exactly if
  the first run did, and writes the same contents (\<open>sim\<close>).
\<close>

definition kinds_le :: "(cpath \<Rightarrow> kind option) \<Rightarrow> (cpath \<Rightarrow> kind option) \<Rightarrow> bool" where
  "kinds_le K T \<longleftrightarrow> (\<forall>p k. K p = Some k \<longrightarrow> T p = Some k)"

definition sim :: "fs \<Rightarrow> fs \<Rightarrow> fs \<Rightarrow> fs \<Rightarrow> bool" where
  "sim s s' t t' \<longleftrightarrow>
     kinds t' = kinds t \<and> cwd t' = cwd t \<and>
     (\<forall>p. contents t' p = contents s' p \<or>
          (contents t' p = contents t p \<and> contents s' p = contents s p))"

definition resolves_dir :: "(cpath \<Rightarrow> kind option) \<Rightarrow> cpath \<Rightarrow> pystr list \<Rightarrow> bool" where
  "resolves_dir K cur cs \<longleftrightarrow> (\<exists>x. lookup_walk K cur cs = Some x \<and> K x = Some KDir)"

definition then_do ::
  "(fs \<Rightarrow> error option \<times> fs) \<Rightarrow> (fs \<Rightarrow> error option \<times> fs) \<Rightarrow> fs \<Rightarrow> error option \<times> fs" where
  "then_do P Q s = (case P s of (Some e, s1) \<Rightarrow> (Some e, s1) | (None, s1) \<Rightarrow> Q s1)"

definition file_entry :: "pystr \<Rightarrow> pystr \<Rightarrow> fs \<Rightarrow> error option \<times> fs" where
  "file_entry full_path c s =
     (case (if dirname full_path \<noteq> [] \<and> \<not> path_exists (dirname full_path) s
            then makedirs (dirname full_path) s
            else (None, s)) of
        (Some e, s1) \<Rightarrow> (Some e, s1)
      | (None, s1) \<Rightarrow> write_file full_path c s1)"

definition mono_prog :: "(fs \<Rightarrow> error option \<times> fs) \<Rightarrow> bool" where
  "mono_prog P \<longleftrightarrow>
     (\<forall>s e s'. P s = (e, s') \<longrightarrow> kinds_le (kinds s) (kinds s') \<and> cwd s' = cwd s)"

definition replay_prog :: "(fs \<Rightarrow> error option \<times> fs) \<Rightarrow> bool" where
  "replay_prog P \<longleftrightarrow>
     (\<forall>s e s' t. P s = (e, s') \<longrightarrow> kinds_le (kinds s') (kinds t) \<longrightarrow> cwd t = cwd s \<longrightarrow>
        (e \<noteq> None \<longrightarrow> kinds t = kinds s') \<longrightarrow>
        (\<exists>e' t'. P t = (e', t') \<and> (e' = None \<longleftrightarrow> e = None) \<and> sim s s' t t'))"



section \<open>Keys of the Tree Model\<close>

text \<open>
  \<open>all_keys P n\<close>: every key of every mapping in the Tree Model \<open>n\<close> satisfies \<open>P\<close>.
  \<open>name_ok\<close> is the property of names in the data model of the specification: not
  empty and without a path separator.
\<close>

fun all_keys :: "(pystr \<Rightarrow> bool) \<Rightarrow> node \<Rightarrow> bool" where
  "all_keys P (File s) = True"
| "all_keys P (Dir m) = (\<forall>kv \<in> set m. P (fst kv) \<and> all_keys P (snd kv))"

definition name_ok :: "pystr \<Rightarrow> bool" where
  "name_ok k \<longleftrightarrow> k \<noteq> [] \<and> SLASH \<notin> set k"

text \<open>
  What holds of the keys that the Indent Parser stores: a key never ends in a slash,
  and the key of a file is not empty.
\<close>

definition indent_key_ok :: "pystr \<Rightarrow> val \<Rightarrow> bool" where
  "indent_key_ok k v \<longleftrightarrow> \<not> endswith_slash k \<and> (case v of Str s \<Rightarrow> k \<noteq> [] | Ref a \<Rightarrow> True)"

definition heap_keys_ok :: "pydict list \<Rightarrow> bool" where
  "heap_keys_ok h \<longleftrightarrow> (\<forall>d \<in> set h. \<forall>kv \<in> set d. indent_key_ok (fst kv) (snd kv))"

text \<open>
  The invariant of the loop of the Indent Parser: the stack is not empty, its bottom
  entry is the root dictionary at address 0, the two stacks have the same length, and
  every stack entry is a reference to an allocated dictionary.
\<close>

definition stack_ok :: "tstate \<Rightarrow> bool" where
  "stack_ok st \<longleftrightarrow>
     stack st \<noteq> [] \<and> hd (stack st) = Ref 0 \<and>
     length (path_stack st) = length (stack st) \<and>
     (\<forall>v \<in> set (stack st). \<exists>a. v = Ref a \<and> a < length (heap st))"

section \<open>The summary of \<open>main\<close>: counting with \<open>os.walk\<close>\<close>









lemmas eval_defs =
  py_def NL_def SPACE_def DOT_def SLASH_def TEE_def CORNER_def VBAR_def DASH_def
  isspace_def lstrip_def rstrip_def strip_def rstrip_chars_def replace_def
  dict_get_def dict_has_def replace_tree_chars_def is_file_line_def place_entry_def
  path_line_def parse_folder_structure_def init_state_def is_glyph_def endswith_slash_def
  is_dir_line_def tree_entry_def tree_line_def parse_tree_structure_def Let_def

lemmas fs_defs = step_def start_of_def path_exists_def makedirs_def write_file_def
  path_join_def dirname_def fs0_def

section \<open>Splitting\<close>

lemma split_not_Nil: "split sep s \<noteq> []"
  by (induction s) (auto split: list.splits)

lemma split_no_sep: "sep \<notin> set s \<Longrightarrow> split sep s = [s]"
  by (induction s) auto

section \<open>The walk along the segments of a path\<close>

lemma walk_file:
  "walk_parts True parts cur = Inr r \<Longrightarrow> parts \<noteq> [] \<Longrightarrow>
   lookup_path r parts = Some (File [])"
proof (induction True parts cur arbitrary: r rule: walk_parts.induct)
  case (1 current)
  then show ?case by simp
next
  case (2 part current)
  then show ?case by (cases current) (auto simp: dict_get_set_same)
next
  case (3 part p2 ps current)
  then show ?case
    by (cases current)
       (auto simp: dict_get_set_same dict_has_get split: if_splits sum.splits option.splits)
qed

lemma walk_dir_keep:
  "walk_parts False parts cur = Inr r \<Longrightarrow> lookup_path cur parts = Some v \<Longrightarrow>
   lookup_path r parts = Some v"
proof (induction False parts cur arbitrary: r rule: walk_parts.induct)
  case (1 current)
  then show ?case by simp
next
  case (2 part current)
  then show ?case
    by (cases current)
       (auto simp: dict_get_set_same dict_has_get split: if_splits option.splits)
next
  case (3 part p2 ps current)
  then show ?case
    by (cases current)
       (auto simp: dict_get_set_same dict_has_get split: if_splits sum.splits option.splits)
qed

lemma lookup_empty_dir_not_file: "lookup_path (Dir []) ks \<noteq> Some (File s)"
  by (cases ks) (auto simp: dict_get_def)

lemma walk_dir_new:
  "walk_parts False parts cur = Inr r \<Longrightarrow> parts \<noteq> [] \<Longrightarrow> lookup_path cur parts = None \<Longrightarrow>
   lookup_path r parts = Some (Dir []) \<or>
   (r = cur \<and> (\<exists>s. lookup_path cur (butlast parts) = Some (File s)))"
proof (induction False parts cur arbitrary: r rule: walk_parts.induct)
  case (1 current)
  then show ?case by simp
next
  case (2 part current)
  then show ?case
    by (cases current)
       (auto simp: dict_get_set_same dict_has_get split: if_splits option.splits)
next
  case (3 part p2 ps current)
  let ?rest = "p2 # ps"
  from "3.prems"(1) obtain m where cur: "current = Dir m"
    by (cases current) (auto split: if_splits)
  show ?case
  proof (cases "dict_has m part")
    case True
    then obtain c where c: "dict_get m part = Some c"
      by (auto simp: dict_has_get)
    with "3.prems"(1) cur True obtain c' where
      w: "walk_parts False ?rest c = Inr c'" and r: "r = Dir (dict_set m part c')"
      by (auto split: sum.splits)
    from "3.prems"(3) cur c have none: "lookup_path c ?rest = None" by simp
    have "lookup_path c' ?rest = Some (Dir []) \<or>
          (c' = c \<and> (\<exists>s. lookup_path c (butlast ?rest) = Some (File s)))"
      by (rule "3.hyps"[of "Dir m" c c']) (use cur True c w none in auto)
    then show ?thesis
    proof
      assume "lookup_path c' ?rest = Some (Dir [])"
      then show ?thesis using r by (simp add: dict_get_set_same)
    next
      assume a: "c' = c \<and> (\<exists>s. lookup_path c (butlast ?rest) = Some (File s))"
      then have "r = current" using r c cur by (simp add: dict_set_id)
      moreover have "\<exists>s. lookup_path current (butlast (part # ?rest)) = Some (File s)"
        using a cur c by simp
      ultimately show ?thesis by blast
    qed
  next
    case False
    let ?m1 = "dict_set m part (Dir [])"
    from "3.prems"(1) cur False obtain c' where
      w: "walk_parts False ?rest (Dir []) = Inr c'" and r: "r = Dir (dict_set ?m1 part c')"
      by (auto simp: dict_get_set_same split: sum.splits)
    have none: "lookup_path (Dir []) ?rest = None" by (simp add: dict_get_def)
    have "lookup_path c' ?rest = Some (Dir []) \<or>
          (c' = Dir [] \<and> (\<exists>s. lookup_path (Dir []) (butlast ?rest) = Some (File s)))"
      by (rule "3.hyps"[of "Dir ?m1" "Dir []" c'])
         (use cur False w none in \<open>auto simp: dict_get_set_same\<close>)
    then have "lookup_path c' ?rest = Some (Dir [])"
      using lookup_empty_dir_not_file by blast
    then show ?thesis using r by (simp add: dict_get_set_same)
  qed
qed

section \<open>The stack of the Indent Parser\<close>

lemma stack_ok_init: "stack_ok init_state"
  by (simp add: stack_ok_def init_state_def)

lemma pop_while_take:
  "length (path_stack st) = length (stack st) \<Longrightarrow>
   pop_while indent st =
     Inr (st\<lparr>stack := take (Suc indent) (stack st), path_stack := take (Suc indent) (path_stack st)\<rparr>)"
proof (induction indent st rule: pop_while.induct)
  case (1 indent st)
  show ?case
  proof (cases "length (stack st) > indent + 1")
    case True
    then have ne: "stack st \<noteq> []" "path_stack st \<noteq> []" using "1.prems" by auto
    let ?st = "st\<lparr>stack := butlast (stack st), path_stack := butlast (path_stack st)\<rparr>"
    have "pop_while indent ?st =
          Inr (?st\<lparr>stack := take (Suc indent) (stack ?st),
                    path_stack := take (Suc indent) (path_stack ?st)\<rparr>)"
      using True ne "1.prems" by (intro "1.IH") auto
    moreover have "take (Suc indent) (butlast (stack st)) = take (Suc indent) (stack st)"
      using True by (simp add: take_butlast)
    moreover have "take (Suc indent) (butlast (path_stack st)) = take (Suc indent) (path_stack st)"
      using True "1.prems" by (simp add: take_butlast)
    ultimately show ?thesis
      using True ne by (subst pop_while.simps) simp
  next
    case False
    then show ?thesis using "1.prems" by (subst pop_while.simps) simp
  qed
qed

lemma stack_ok_take:
  "stack_ok st \<Longrightarrow>
   stack_ok (st\<lparr>stack := take (Suc indent) (stack st), path_stack := take (Suc indent) (path_stack st)\<rparr>)"
  by (cases "stack st") (auto simp: stack_ok_def dest: in_set_takeD)

lemma stack_ok_last:
  "stack_ok st \<Longrightarrow> \<exists>a. last (stack st) = Ref a \<and> a < length (heap st)"
  by (auto simp: stack_ok_def)

lemma tree_entry_dir:
  assumes "stack_ok st" "last (stack st) = Ref a" "is_dir_line clean_line"
  shows "tree_entry clean_line st =
     Inr (st\<lparr>heap := (heap st)[a := dict_set (heap st ! a) (rstrip_chars [SLASH] clean_line)
                                      (Ref (length (heap st)))] @ [[]],
             stack := stack st @ [Ref (length (heap st))],
             path_stack := path_stack st @ [rstrip_chars [SLASH] clean_line]\<rparr>)"
proof -
  from assms(1,2) have a: "a < length (heap st)" and ne: "stack st \<noteq> []"
    using stack_ok_last[of st] by (auto simp: stack_ok_def)
  show ?thesis
    using assms(2,3) a ne
    by (simp add: tree_entry_def Let_def nth_append list_update_append dict_get_set_same)
qed

lemma tree_entry_file:
  assumes "stack_ok st" "last (stack st) = Ref a" "\<not> is_dir_line clean_line"
  shows "tree_entry clean_line st =
     Inr (st\<lparr>heap := (heap st)[a := dict_set (heap st ! a) clean_line (Str [])]\<rparr>)"
proof -
  from assms(1) have ne: "stack st \<noteq> []" by (simp add: stack_ok_def)
  show ?thesis using assms(2,3) ne by (simp add: tree_entry_def Let_def)
qed

lemma tree_entry_ok:
  assumes "stack_ok st"
  shows "\<exists>st'. tree_entry clean_line st = Inr st' \<and> stack_ok st'"
proof -
  from assms obtain a where a: "last (stack st) = Ref a" "a < length (heap st)"
    using stack_ok_last by blast
  show ?thesis
  proof (cases "is_dir_line clean_line")
    case True
    show ?thesis
      using tree_entry_dir[OF assms a(1) True] assms
      by (auto simp: stack_ok_def less_Suc_eq)
  next
    case False
    show ?thesis
      using tree_entry_file[OF assms a(1) False] assms
      by (auto simp: stack_ok_def)
  qed
qed

lemma tree_line_ok:
  assumes "stack_ok st"
  shows "\<exists>st'. tree_line line st = Inr st' \<and> stack_ok st'"
proof -
  from assms have len: "length (path_stack st) = length (stack st)"
    by (simp add: stack_ok_def)
  show ?thesis
    using assms pop_while_take[OF len, of "scan_indent line"]
      tree_entry_ok[OF stack_ok_take[OF assms, of "scan_indent line"]]
    by (auto simp: tree_line_def Let_def)
qed

lemma tree_lines_ok:
  "stack_ok st \<Longrightarrow> \<exists>st'. tree_lines ls st = Inr st' \<and> stack_ok st'"
proof (induction ls arbitrary: st)
  case Nil
  then show ?case by simp
next
  case (Cons l ls)
  from tree_line_ok[OF Cons.prems, of l] obtain st1 where
    "tree_line l st = Inr st1" "stack_ok st1" by blast
  with Cons.IH[of st1] show ?case by auto
qed

lemma strip_Nil_iff: "strip s = [] \<longleftrightarrow> (\<forall>c \<in> set s. isspace c)"
proof
  assume e: "strip s = []"
  let ?d = "dropWhile isspace (rev s)"
  have all: "\<forall>c \<in> set ?d. isspace c"
    using e by (simp add: strip_def lstrip_def rstrip_def dropWhile_eq_Nil_conv)
  have "?d = []"
  proof (rule ccontr)
    assume ne: "?d \<noteq> []"
    then have "\<not> isspace (hd ?d)" by (rule hd_dropWhile)
    moreover have "hd ?d \<in> set ?d" using ne by simp
    ultimately show False using all by blast
  qed
  then show "\<forall>c \<in> set s. isspace c" by (simp add: dropWhile_eq_Nil_conv)
next
  assume "\<forall>c \<in> set s. isspace c"
  then show "strip s = []"
    by (auto simp: strip_def lstrip_def rstrip_def dest: set_dropWhileD)
qed

lemma glyph_not_space: "is_glyph c \<Longrightarrow> \<not> isspace c"
  by (auto simp: is_glyph_def isspace_def VBAR_def TEE_def CORNER_def DASH_def)

lemma re_sub_glyphs_no_glyph: "\<forall>c \<in> set s. \<not> is_glyph c \<Longrightarrow> re_sub_glyphs s = s"
  by (induction s) auto

lemma clean_line_line_not_blank:
  assumes "strip (re_sub_glyphs line) \<noteq> []"
  shows "strip line \<noteq> []"
proof
  assume "strip line = []"
  then have sp: "\<forall>c \<in> set line. isspace c" by (simp add: strip_Nil_iff)
  then have "re_sub_glyphs line = line"
    using glyph_not_space by (intro re_sub_glyphs_no_glyph) blast
  with sp assms show False by (simp add: strip_Nil_iff)
qed

lemma tree_line_processed:
  assumes "stack_ok st" and "strip (re_sub_glyphs line) \<noteq> []"
  shows "tree_line line st =
     tree_entry (strip (re_sub_glyphs line))
       (st\<lparr>stack := take (Suc (scan_indent line)) (stack st),
           path_stack := take (Suc (scan_indent line)) (path_stack st)\<rparr>)"
proof -
  from assms(1) have len: "length (path_stack st) = length (stack st)"
    by (simp add: stack_ok_def)
  show ?thesis
    using assms(2) clean_line_line_not_blank[OF assms(2)] pop_while_take[OF len, of "scan_indent line"]
    by (simp add: tree_line_def Let_def)
qed

lemma tree_line_step:
  assumes ok: "stack_ok st" and ne: "strip (re_sub_glyphs line) \<noteq> []"
    and deep: "length (stack st) \<le> Suc (scan_indent line)"
    and top: "last (stack st) = Ref a"
  shows "tree_line line st =
     Inr (if is_dir_line (strip (re_sub_glyphs line))
          then st\<lparr>heap := (heap st)[a := dict_set (heap st ! a)
                                 (rstrip_chars [SLASH] (strip (re_sub_glyphs line)))
                                 (Ref (length (heap st)))] @ [[]],
                  stack := stack st @ [Ref (length (heap st))],
                  path_stack := path_stack st @ [rstrip_chars [SLASH] (strip (re_sub_glyphs line))]\<rparr>
          else st\<lparr>heap := (heap st)[a := dict_set (heap st ! a) (strip (re_sub_glyphs line)) (Str [])]\<rparr>)"
proof -
  from ok have len: "length (path_stack st) = length (stack st)" by (simp add: stack_ok_def)
  have same: "st\<lparr>stack := take (Suc (scan_indent line)) (stack st),
                  path_stack := take (Suc (scan_indent line)) (path_stack st)\<rparr> = st"
    using deep len by simp
  have "tree_line line st = tree_entry (strip (re_sub_glyphs line)) st"
    using tree_line_processed[OF ok ne] same by simp
  then show ?thesis
    using tree_entry_dir[OF ok top] tree_entry_file[OF ok top] by simp
qed

section \<open>Cleaning a line of the Indent Parser\<close>











section \<open>Keys stored by the parsers\<close>

lemma set_dict_set: "set (dict_set m k v) \<subseteq> insert (k, v) (set m)"
  by (induction m) auto

lemma dict_get_in_set: "dict_get m k = Some v \<Longrightarrow> (k, v) \<in> set m"
  by (simp add: dict_get_def map_of_SomeD)

lemma all_keys_dict_set:
  assumes "all_keys P (Dir m)" "P k" "all_keys P v"
  shows "all_keys P (Dir (dict_set m k v))"
  using assms set_dict_set[of m k v] by auto

lemma all_keys_child:
  assumes "all_keys P (Dir m)" "dict_get m k = Some v"
  shows "all_keys P v"
proof -
  have "(k, v) \<in> set m" using assms(2) by (rule dict_get_in_set)
  with assms(1) show ?thesis by fastforce
qed

lemma walk_all_keys:
  "walk_parts f parts cur = Inr r \<Longrightarrow> \<forall>p \<in> set parts. P p \<Longrightarrow> all_keys P cur \<Longrightarrow>
   all_keys P r"
proof (induction f parts cur arbitrary: r rule: walk_parts.induct)
  case (1 is_file current)
  then show ?case by simp
next
  case (2 is_file part current)
  show ?case
  proof (cases current)
    case (File s)
    with 2 show ?thesis by (auto split: if_splits)
  next
    case (Dir m)
    have cur: "all_keys P (Dir m)" and pp: "P part" using 2 Dir by simp_all
    have f: "all_keys P (Dir (dict_set m part (File [])))"
      using cur pp by (rule all_keys_dict_set) simp
    have d: "all_keys P (Dir (dict_set m part (Dir [])))"
      using cur pp by (rule all_keys_dict_set) simp
    from "2.prems"(1) Dir have
      "r = Dir (dict_set m part (File [])) \<or> r = Dir (dict_set m part (Dir [])) \<or> r = Dir m"
      by (auto split: if_splits)
    with f d cur show ?thesis by blast
  qed
next
  case (3 is_file part p2 ps current)
  let ?rest = "p2 # ps"
  from "3.prems"(1) obtain m where cur: "current = Dir m"
    by (cases current) (auto split: if_splits)
  define m1 where "m1 = (if dict_has m part then m else dict_set m part (Dir []))"
  have ok1: "all_keys P (Dir m1)"
    using all_keys_dict_set[of P m part "Dir []"] "3.prems" cur by (simp add: m1_def)
  have c1: "(if \<not> py_contains part current then py_setitem current part (Dir [])
             else Inr current) = Inr (Dir m1)"
    using cur by (simp add: m1_def)
  obtain c where c: "dict_get m1 part = Some c"
    by (cases "dict_has m part") (auto simp: m1_def dict_has_get dict_get_set_same)
  from "3.prems"(1) c1 c obtain c' where
    w: "walk_parts is_file ?rest c = Inr c'" and r: "r = Dir (dict_set m1 part c')"
    by (auto simp del: walk_parts.simps simp add: walk_parts.simps(3) split: sum.splits)
  have okc: "all_keys P c" using ok1 c by (rule all_keys_child)
  have "all_keys P c'"
    using "3.IH"[OF c1 _ w _ okc] c "3.prems"(2) by simp
  then show ?case
    using all_keys_dict_set[OF ok1, of part c'] "3.prems"(2) r by simp
qed

lemma split_parts_no_sep: "p \<in> set (split sep s) \<Longrightarrow> sep \<notin> set p"
proof (induction s arbitrary: p)
  case Nil
  then show ?case by simp
next
  case (Cons c cs)
  show ?case
  proof (cases "c = sep")
    case True
    with Cons show ?thesis by auto
  next
    case False
    obtain q qs where q: "split sep cs = q # qs"
      using split_not_Nil[of sep cs] by (cases "split sep cs") auto
    with Cons False show ?thesis by auto
  qed
qed

lemma path_line_place:
  assumes "path_line line root = Inr r"
  shows "r = root \<or>
         (strip (replace_tree_chars (rstrip line)) \<noteq> [] \<and>
          place_entry (strip (replace_tree_chars (rstrip line))) root = Inr r)"
  using assms by (auto simp: path_line_def Let_def split: if_splits)

lemma place_entry_all_keys:
  assumes "place_entry clean_line root = Inr r" "all_keys (\<lambda>k. SLASH \<notin> set k) root"
  shows "all_keys (\<lambda>k. SLASH \<notin> set k) r"
proof (cases "SLASH \<in> set clean_line")
  case True
  then have w: "walk_parts (is_file_line clean_line) (split SLASH clean_line) root = Inr r"
    using assms(1) by (simp add: place_entry_def)
  have "\<forall>p \<in> set (split SLASH clean_line). SLASH \<notin> set p"
    using split_parts_no_sep by blast
  with w show ?thesis using assms(2) by (rule walk_all_keys)
next
  case False
  have w: "walk_parts (is_file_line clean_line) [clean_line] root = Inr r"
    using assms(1) False by (simp add: place_entry_def)
  have "\<forall>p \<in> set [clean_line]. SLASH \<notin> set p" using False by simp
  with w show ?thesis using assms(2) by (rule walk_all_keys)
qed

lemma path_lines_all_keys:
  "path_lines ls root = Inr r \<Longrightarrow> all_keys (\<lambda>k. SLASH \<notin> set k) root \<Longrightarrow>
   all_keys (\<lambda>k. SLASH \<notin> set k) r"
proof (induction ls arbitrary: root)
  case Nil
  then show ?case by simp
next
  case (Cons l ls)
  from Cons.prems(1) obtain r1 where
    l: "path_line l root = Inr r1" and rest: "path_lines ls r1 = Inr r"
    by (auto split: sum.splits)
  have "all_keys (\<lambda>k. SLASH \<notin> set k) r1"
    using path_line_place[OF l] place_entry_all_keys Cons.prems(2) by blast
  with rest show ?case by (rule Cons.IH)
qed

lemma rstrip_chars_not_endswith: "\<not> endswith_slash (rstrip_chars [SLASH] s)"
proof
  assume e: "endswith_slash (rstrip_chars [SLASH] s)"
  let ?d = "dropWhile (\<lambda>c. c \<in> set [SLASH]) (rev s)"
  from e have ne: "?d \<noteq> []" and "last (rev ?d) = SLASH"
    by (auto simp: endswith_slash_def rstrip_chars_def)
  then have "hd ?d = SLASH" by (simp add: last_rev)
  moreover have "\<not> (hd ?d \<in> set [SLASH])" using ne by (rule hd_dropWhile)
  ultimately show False by simp
qed

lemma file_line_not_endswith: "\<not> is_dir_line c \<Longrightarrow> \<not> endswith_slash c"
  by (simp add: is_dir_line_def)

lemma heap_keys_ok_update:
  assumes "heap_keys_ok h" "indent_key_ok k v" "a < length h"
  shows "heap_keys_ok (h[a := dict_set (h ! a) k v])"
proof -
  have "d \<in> set (h[a := dict_set (h ! a) k v]) \<Longrightarrow> kv \<in> set d \<Longrightarrow>
        indent_key_ok (fst kv) (snd kv)" for d kv
  proof -
    assume d: "d \<in> set (h[a := dict_set (h ! a) k v])" and kv: "kv \<in> set d"
    from d have "d \<in> set h \<or> d = dict_set (h ! a) k v"
      using set_update_subset_insert[of h a "dict_set (h ! a) k v"] by auto
    then show ?thesis
    proof
      assume "d \<in> set h"
      with assms(1) kv show ?thesis by (auto simp: heap_keys_ok_def)
    next
      assume "d = dict_set (h ! a) k v"
      with kv have "kv = (k, v) \<or> kv \<in> set (h ! a)"
        using set_dict_set[of "h ! a" k v] by auto
      moreover have "h ! a \<in> set h" using assms(3) by simp
      ultimately show ?thesis using assms(1,2) by (auto simp: heap_keys_ok_def)
    qed
  qed
  then show ?thesis by (auto simp: heap_keys_ok_def)
qed

lemma heap_keys_ok_snoc: "heap_keys_ok h \<Longrightarrow> heap_keys_ok (h @ [[]])"
  by (auto simp: heap_keys_ok_def)

lemma tree_entry_keys:
  assumes ok: "stack_ok st" and ne: "clean_line \<noteq> []" and hk: "heap_keys_ok (heap st)"
    and run: "tree_entry clean_line st = Inr st'"
  shows "heap_keys_ok (heap st')"
proof -
  from ok obtain a where a: "last (stack st) = Ref a" "a < length (heap st)"
    using stack_ok_last by blast
  show ?thesis
  proof (cases "is_dir_line clean_line")
    case True
    have k: "indent_key_ok (rstrip_chars [SLASH] clean_line) (Ref (length (heap st)))"
      by (simp add: indent_key_ok_def rstrip_chars_not_endswith)
    have "heap st' = (heap st)[a := dict_set (heap st ! a) (rstrip_chars [SLASH] clean_line)
                                      (Ref (length (heap st)))] @ [[]]"
      using tree_entry_dir[OF ok a(1) True] run by simp
    then show ?thesis
      using heap_keys_ok_snoc[OF heap_keys_ok_update[OF hk k a(2)]] by simp
  next
    case False
    have k: "indent_key_ok clean_line (Str [])"
      using ne False by (simp add: indent_key_ok_def file_line_not_endswith)
    have "heap st' = (heap st)[a := dict_set (heap st ! a) clean_line (Str [])]"
      using tree_entry_file[OF ok a(1) False] run by simp
    then show ?thesis
      using heap_keys_ok_update[OF hk k a(2)] by simp
  qed
qed

lemma tree_line_keys:
  assumes ok: "stack_ok st" and hk: "heap_keys_ok (heap st)"
    and run: "tree_line line st = Inr st'"
  shows "heap_keys_ok (heap st')"
proof (cases "strip (re_sub_glyphs line) = []")
  case True
  then have "st' = st" using run by (simp add: tree_line_def Let_def split: if_splits)
  with hk show ?thesis by simp
next
  case False
  let ?st1 = "st\<lparr>stack := take (Suc (scan_indent line)) (stack st),
                  path_stack := take (Suc (scan_indent line)) (path_stack st)\<rparr>"
  have "tree_entry (strip (re_sub_glyphs line)) ?st1 = Inr st'"
    using tree_line_processed[OF ok False] run by simp
  moreover have "stack_ok ?st1" by (rule stack_ok_take[OF ok])
  moreover have "heap_keys_ok (heap ?st1)" using hk by simp
  ultimately show ?thesis using False tree_entry_keys by blast
qed

lemma tree_lines_keys:
  "stack_ok st \<Longrightarrow> heap_keys_ok (heap st) \<Longrightarrow> tree_lines ls st = Inr st' \<Longrightarrow>
   heap_keys_ok (heap st')"
proof (induction ls arbitrary: st)
  case Nil
  then show ?case by simp
next
  case (Cons l ls)
  from tree_line_ok[OF Cons.prems(1), of l] obtain s1 where
    s1: "tree_line l st = Inr s1" "stack_ok s1" by blast
  have hk1: "heap_keys_ok (heap s1)"
    using tree_line_keys[OF Cons.prems(1,2) s1(1)] .
  have "tree_lines ls s1 = Inr st'" using Cons.prems(3) s1(1) by simp
  with s1(2) hk1 show ?case by (rule Cons.IH)
qed

section \<open>Collisions of names\<close>

lemma walk_on_file:
  assumes "walk_parts f parts (File s) = Inr r"
  shows "r = File s \<and> (length parts \<le> 1)"
proof (cases parts)
  case Nil
  with assms show ?thesis by simp
next
  case (Cons p ps)
  show ?thesis
  proof (cases ps)
    case Nil
    with Cons assms show ?thesis by (auto split: if_splits)
  next
    case (Cons q qs)
    with \<open>parts = p # ps\<close> assms show ?thesis by (auto split: if_splits)
  qed
qed

lemma walk_keeps_file:
  "walk_parts f parts cur = Inr r \<Longrightarrow> lookup_path cur (take n parts) = Some (File s) \<Longrightarrow>
   n < length parts \<Longrightarrow> lookup_path r (take n parts) = Some (File s)"
proof (induction f parts cur arbitrary: r n rule: walk_parts.induct)
  case (1 is_file current)
  then show ?case by simp
next
  case (2 is_file part current)
  then have "n = 0" by simp
  with "2.prems"(2) have cur: "current = File s" by simp
  from walk_on_file[OF "2.prems"(1)[unfolded cur]] cur \<open>n = 0\<close> show ?case by simp
next
  case (3 is_file part p2 ps current)
  let ?rest = "p2 # ps"
  show ?case
  proof (cases n)
    case 0
    with "3.prems"(2) have cur: "current = File s" by simp
    from walk_on_file[OF "3.prems"(1)[unfolded cur]] show ?thesis by simp
  next
    case (Suc n')
    from "3.prems"(1) obtain m where cur: "current = Dir m"
      by (cases current) (auto split: if_splits)
    from "3.prems"(2) Suc cur obtain c where
      c: "dict_get m part = Some c" and lc: "lookup_path c (take n' ?rest) = Some (File s)"
      by (auto split: option.splits)
    have has: "dict_has m part" using c by (simp add: dict_has_get)
    have c1: "(if \<not> py_contains part current then py_setitem current part (Dir [])
               else Inr current) = Inr (Dir m)"
      using cur has by simp
    from "3.prems"(1) cur has c obtain c' where
      w: "walk_parts is_file ?rest c = Inr c'" and r: "r = Dir (dict_set m part c')"
      by (auto split: sum.splits)
    have n': "n' < length ?rest" using "3.prems"(3) Suc by simp
    have "lookup_path c' (take n' ?rest) = Some (File s)"
      using "3.IH"[OF c1 _ w lc n'] cur c by simp
    then show ?thesis using r Suc by (simp add: dict_get_set_same)
  qed
qed

lemma strip_replace_Nil: "strip (replace_tree_chars []) = []"
  by (simp add: strip_def lstrip_def rstrip_def replace_tree_chars_def replace_def)

lemma path_line_processed:
  assumes "strip (replace_tree_chars (rstrip line)) \<noteq> []"
  shows "path_line line root = place_entry (strip (replace_tree_chars (rstrip line))) root"
proof -
  have "rstrip line \<noteq> []"
  proof
    assume e: "rstrip line = []"
    have "strip (replace_tree_chars (rstrip line)) = []"
      unfolding e by (rule strip_replace_Nil)
    with assms show False by contradiction
  qed
  then show ?thesis using assms by (simp add: path_line_def Let_def)
qed

lemma tree_line_effect:
  assumes ok: "stack_ok st" and ne: "strip (re_sub_glyphs line) \<noteq> []"
  shows "\<exists>a. last (take (Suc (scan_indent line)) (stack st)) = Ref a \<and> a < length (heap st) \<and>
     tree_line line st =
     Inr (if is_dir_line (strip (re_sub_glyphs line))
          then st\<lparr>heap := (heap st)[a := dict_set (heap st ! a)
                                 (rstrip_chars [SLASH] (strip (re_sub_glyphs line)))
                                 (Ref (length (heap st)))] @ [[]],
                  stack := take (Suc (scan_indent line)) (stack st) @ [Ref (length (heap st))],
                  path_stack := take (Suc (scan_indent line)) (path_stack st) @
                                [rstrip_chars [SLASH] (strip (re_sub_glyphs line))]\<rparr>
          else st\<lparr>heap := (heap st)[a := dict_set (heap st ! a) (strip (re_sub_glyphs line)) (Str [])],
                  stack := take (Suc (scan_indent line)) (stack st),
                  path_stack := take (Suc (scan_indent line)) (path_stack st)\<rparr>)"
proof -
  let ?st1 = "st\<lparr>stack := take (Suc (scan_indent line)) (stack st),
                  path_stack := take (Suc (scan_indent line)) (path_stack st)\<rparr>"
  have ok1: "stack_ok ?st1" by (rule stack_ok_take[OF ok])
  then obtain a where a: "last (stack ?st1) = Ref a" "a < length (heap ?st1)"
    using stack_ok_last by blast
  have tl: "tree_line line st = tree_entry (strip (re_sub_glyphs line)) ?st1"
    by (rule tree_line_processed[OF ok ne])
  show ?thesis
  proof (cases "is_dir_line (strip (re_sub_glyphs line))")
    case True
    show ?thesis
      using tree_entry_dir[OF ok1 a(1) True] tl a True by (intro exI[of _ a]) simp
  next
    case False
    show ?thesis
      using tree_entry_file[OF ok1 a(1) False] tl a False by (intro exI[of _ a]) simp
  qed
qed

section \<open>The filesystem\<close>

lemma kinds_le_refl: "kinds_le K K"
  by (simp add: kinds_le_def)

lemma kinds_le_trans: "kinds_le A B \<Longrightarrow> kinds_le B C \<Longrightarrow> kinds_le A C"
  by (simp add: kinds_le_def)

lemma kinds_le_upd: "K p = None \<Longrightarrow> kinds_le K (K(p \<mapsto> k))"
  by (auto simp: kinds_le_def)

lemma kinds_le_dir: "kinds_le K T \<Longrightarrow> K p = Some KDir \<Longrightarrow> T p = Some KDir"
  by (simp add: kinds_le_def)

lemma lookup_walk_mono:
  "kinds_le K T \<Longrightarrow> lookup_walk K cur cs = Some x \<Longrightarrow> lookup_walk T cur cs = Some x"
proof (induction cs arbitrary: cur)
  case Nil
  then show ?case by simp
next
  case (Cons c cs)
  from Cons.prems(2) have d: "K cur = Some KDir" and
    r: "lookup_walk K (step cur c) cs = Some x"
    by (auto split: if_splits)
  have "T cur = Some KDir" using Cons.prems(1) d by (rule kinds_le_dir)
  moreover have "lookup_walk T (step cur c) cs = Some x"
    using Cons.prems(1) r by (rule Cons.IH)
  ultimately show ?case by simp
qed

lemma mk_walk_Cons_new:
  "K cur = Some KDir \<Longrightarrow> K (step cur c) = None \<Longrightarrow>
   mk_walk K cur (c # cs) = mk_walk (K(step cur c \<mapsto> KDir)) (step cur c) cs"
  by simp

lemma mk_walk_Cons_old:
  "K cur = Some KDir \<Longrightarrow> K (step cur c) = Some k \<Longrightarrow>
   mk_walk K cur (c # cs) = mk_walk K (step cur c) cs"
  by simp

lemma mk_walk_Cons_stop:
  "K cur \<noteq> Some KDir \<Longrightarrow> mk_walk K cur (c # cs) = (Some OSError, K)"
  by simp

lemma mk_walk_mono: "mk_walk K cur cs = (e, K') \<Longrightarrow> kinds_le K K'"
proof (induction cs arbitrary: K cur)
  case Nil
  then show ?case by (auto simp: kinds_le_refl split: if_splits)
next
  case (Cons c cs)
  show ?case
  proof (cases "K cur = Some KDir")
    case False
    with Cons.prems show ?thesis by (simp add: kinds_le_refl)
  next
    case True
    show ?thesis
    proof (cases "K (step cur c)")
      case n: None
      then have "mk_walk (K(step cur c \<mapsto> KDir)) (step cur c) cs = (e, K')"
        using Cons.prems True by (simp only: mk_walk_Cons_new)
      then have "kinds_le (K(step cur c \<mapsto> KDir)) K'" by (rule Cons.IH)
      moreover have "kinds_le K (K(step cur c \<mapsto> KDir))"
        using n by (rule kinds_le_upd)
      ultimately show ?thesis using kinds_le_trans by blast
    next
      case (Some k)
      then have "mk_walk K (step cur c) cs = (e, K')"
        using Cons.prems True by (simp only: mk_walk_Cons_old)
      then show ?thesis by (rule Cons.IH)
    qed
  qed
qed

lemma mk_walk_replay:
  "mk_walk K cur cs = (e, K') \<Longrightarrow> kinds_le K' T \<Longrightarrow> (e \<noteq> None \<longrightarrow> T = K') \<Longrightarrow>
   mk_walk T cur cs = (e, T)"
proof (induction cs arbitrary: K cur)
  case Nil
  show ?case
  proof (cases "K cur = Some KDir")
    case True
    with Nil.prems(1) have "K' = K" "e = None" by auto
    with Nil.prems(2) True have "T cur = Some KDir" by (auto dest: kinds_le_dir)
    with \<open>e = None\<close> show ?thesis by simp
  next
    case False
    with Nil.prems(1) have "K' = K" "e = Some OSError" by auto
    with Nil.prems(3) False show ?thesis by simp
  qed
next
  case (Cons c cs)
  show ?case
  proof (cases "K cur = Some KDir")
    case False
    with Cons.prems(1) have "K' = K" "e = Some OSError" by auto
    with Cons.prems(3) False show ?thesis by simp
  next
    case True
    have le: "kinds_le K K'" using Cons.prems(1) by (rule mk_walk_mono)
    then have "kinds_le K T" using Cons.prems(2) by (rule kinds_le_trans)
    then have tc: "T cur = Some KDir" using True by (rule kinds_le_dir)
    show ?thesis
    proof (cases "K (step cur c)")
      case n: None
      then have r: "mk_walk (K(step cur c \<mapsto> KDir)) (step cur c) cs = (e, K')"
        using Cons.prems(1) True by (simp only: mk_walk_Cons_new)
      then have "kinds_le (K(step cur c \<mapsto> KDir)) K'" by (rule mk_walk_mono)
      then have "K' (step cur c) = Some KDir" by (rule kinds_le_dir) simp
      with Cons.prems(2) have "T (step cur c) = Some KDir" by (rule kinds_le_dir)
      moreover have "mk_walk T (step cur c) cs = (e, T)"
        using r Cons.prems(2,3) by (rule Cons.IH)
      ultimately show ?thesis using tc by simp
    next
      case (Some k)
      then have r: "mk_walk K (step cur c) cs = (e, K')"
        using Cons.prems(1) True by (simp only: mk_walk_Cons_old)
      from Some have "K (step cur c) = Some k" .
      with \<open>kinds_le K T\<close> have "T (step cur c) = Some k" by (simp add: kinds_le_def)
      moreover have "mk_walk T (step cur c) cs = (e, T)"
        using r Cons.prems(2,3) by (rule Cons.IH)
      ultimately show ?thesis using tc by simp
    qed
  qed
qed

lemma mk_walk_fail_unresolved:
  "mk_walk K cur cs = (Some e, K') \<Longrightarrow>
   \<not> (\<exists>x. lookup_walk K' cur cs = Some x \<and> K' x = Some KDir)"
proof (induction cs arbitrary: K cur)
  case Nil
  then show ?case by (auto split: if_splits)
next
  case (Cons c cs)
  show ?case
  proof (cases "K cur = Some KDir")
    case False
    with Cons.prems have "K' = K" by simp
    with False show ?thesis by simp
  next
    case True
    show ?thesis
    proof (cases "K (step cur c)")
      case n: None
      then have "mk_walk (K(step cur c \<mapsto> KDir)) (step cur c) cs = (Some e, K')"
        using Cons.prems True by (simp only: mk_walk_Cons_new)
      then have "\<not> (\<exists>x. lookup_walk K' (step cur c) cs = Some x \<and> K' x = Some KDir)"
        by (rule Cons.IH)
      then show ?thesis by auto
    next
      case (Some k)
      then have "mk_walk K (step cur c) cs = (Some e, K')"
        using Cons.prems True by (simp only: mk_walk_Cons_old)
      then have "\<not> (\<exists>x. lookup_walk K' (step cur c) cs = Some x \<and> K' x = Some KDir)"
        by (rule Cons.IH)
      then show ?thesis by auto
    qed
  qed
qed

lemma split_append_sep: "split sep (a @ sep # b) = split sep a @ split sep b"
proof (induction a)
  case Nil
  then show ?case by simp
next
  case (Cons c a)
  obtain q qs where q: "split sep a = q # qs"
    using split_not_Nil[of sep a] by (cases "split sep a") auto
  show ?case
  proof (cases "c = sep")
    case True
    then show ?thesis using Cons by simp
  next
    case False
    then show ?thesis using Cons q by simp
  qed
qed

lemma split_snoc_sep: "split sep (a @ [sep]) = split sep a @ [[]]"
  using split_append_sep[of sep a "[]"] by simp

lemma split_trailing_seps: "split sep (a @ replicate k sep) = split sep a @ replicate k []"
proof (induction k)
  case 0
  then show ?case by simp
next
  case (Suc k)
  have "a @ replicate (Suc k) sep = (a @ replicate k sep) @ [sep]"
    by (simp add: replicate_append_same)
  then have "split sep (a @ replicate (Suc k) sep) = split sep (a @ replicate k sep) @ [[]]"
    by (simp only: split_snoc_sep)
  also have "\<dots> = split sep a @ replicate (Suc k) []"
    by (simp add: Suc replicate_append_same)
  finally show ?case .
qed

lemma rev_split_while: "xs = rev (dropWhile P (rev xs)) @ rev (takeWhile P (rev xs))"
proof -
  have "rev (takeWhile P (rev xs) @ dropWhile P (rev xs)) = xs"
    by (simp only: takeWhile_dropWhile_id rev_rev_ident)
  then show ?thesis by (simp only: rev_append)
qed

lemma rstrip_chars_decomp: "\<exists>k. x = rstrip_chars [SLASH] x @ replicate k SLASH"
proof -
  let ?P = "\<lambda>c. c \<in> set [SLASH]"
  have "\<forall>c \<in> set (takeWhile ?P (rev x)). c = SLASH"
    by (auto dest: set_takeWhileD)
  then have t: "replicate (length (takeWhile ?P (rev x))) SLASH = takeWhile ?P (rev x)"
    by (rule replicate_length_same)
  have "x = rev (dropWhile ?P (rev x)) @ rev (takeWhile ?P (rev x))"
    by (rule rev_split_while)
  also have "rev (takeWhile ?P (rev x)) = replicate (length (takeWhile ?P (rev x))) SLASH"
    by (subst t[symmetric]) simp
  finally show ?thesis unfolding rstrip_chars_def by blast
qed

lemma head_tail_decomp:
  "\<exists>tl. p = rev (dropWhile (\<lambda>c. c \<noteq> SLASH) (rev p)) @ tl \<and> SLASH \<notin> set tl"
proof -
  let ?Q = "\<lambda>c. c \<noteq> SLASH"
  have "p = rev (dropWhile ?Q (rev p)) @ rev (takeWhile ?Q (rev p))"
    by (rule rev_split_while)
  moreover have "SLASH \<notin> set (rev (takeWhile ?Q (rev p)))"
    by (auto dest: set_takeWhileD)
  ultimately show ?thesis by blast
qed

lemma head_last_slash:
  assumes "rev (dropWhile (\<lambda>c. c \<noteq> SLASH) (rev p)) \<noteq> []"
  shows "\<exists>h. rev (dropWhile (\<lambda>c. c \<noteq> SLASH) (rev p)) = h @ [SLASH]"
proof -
  let ?d = "dropWhile (\<lambda>c. c \<noteq> SLASH) (rev p)"
  from assms have ne: "?d \<noteq> []" by simp
  then have "\<not> (hd ?d \<noteq> SLASH)" by (rule hd_dropWhile)
  then have "hd ?d = SLASH" by simp
  with ne have "?d = SLASH # tl ?d" by (cases ?d) auto
  then have "rev ?d = rev (SLASH # tl ?d)" by simp
  then show ?thesis by simp
qed

lemma dirname_cases:
  assumes "dirname p \<noteq> []"
  shows "\<exists>h tl. p = h @ SLASH # tl \<and> SLASH \<notin> set tl \<and>
           ((\<exists>k. h = dirname p @ replicate k SLASH \<and> dirname p \<noteq> replicate (length (dirname p)) SLASH)
            \<or> (dirname p = h @ [SLASH] \<and> h = replicate (length h) SLASH))"
proof -
  let ?head = "rev (dropWhile (\<lambda>c. c \<noteq> SLASH) (rev p))"
  have hne: "?head \<noteq> []"
  proof
    assume "?head = []"
    then have "dirname p = []" by (simp add: dirname_def)
    with assms show False by contradiction
  qed
  then obtain h where h: "?head = h @ [SLASH]" using head_last_slash by blast
  obtain tl where tl: "p = ?head @ tl" "SLASH \<notin> set tl" using head_tail_decomp by blast
  have p: "p = h @ SLASH # tl" using tl(1) h by simp
  show ?thesis
  proof (cases "?head = replicate (length ?head) SLASH")
    case True
    then have d: "dirname p = h @ [SLASH]" using h by (simp add: dirname_def)
    have "h @ [SLASH] = replicate (length h) SLASH @ [SLASH]"
      using True h by (simp add: replicate_append_same)
    then have "h = replicate (length h) SLASH" by simp
    with p tl(2) d show ?thesis by blast
  next
    case False
    then have d: "dirname p = rstrip_chars [SLASH] (h @ [SLASH])"
      using h hne by (simp add: dirname_def Let_def)
    obtain k where k: "h @ [SLASH] = dirname p @ replicate k SLASH"
      using rstrip_chars_decomp[of "h @ [SLASH]"] d by auto
    have nd: "dirname p \<noteq> replicate (length (dirname p)) SLASH"
    proof
      assume a: "dirname p = replicate (length (dirname p)) SLASH"
      have "h @ [SLASH] = replicate (length (dirname p)) SLASH @ replicate k SLASH"
        using k a by simp
      then have "h @ [SLASH] = replicate (length (dirname p) + k) SLASH"
        by (simp add: replicate_add)
      then have "?head = replicate (length ?head) SLASH" using h by simp
      with False show False by contradiction
    qed
    have "k \<noteq> 0"
    proof
      assume "k = 0"
      with k have "dirname p = h @ [SLASH]" by simp
      then have "last (rstrip_chars [SLASH] (h @ [SLASH])) = SLASH" using d by simp
      moreover have "rstrip_chars [SLASH] (h @ [SLASH]) \<noteq> []" using d assms by simp
      ultimately have "endswith_slash (rstrip_chars [SLASH] (h @ [SLASH]))"
        by (simp add: endswith_slash_def)
      then show False using rstrip_chars_not_endswith by blast
    qed
    then obtain k' where k': "k = Suc k'" by (cases k) auto
    have "h @ [SLASH] = (dirname p @ replicate k' SLASH) @ [SLASH]"
      using k k' by (simp add: replicate_append_same)
    then have "h = dirname p @ replicate k' SLASH" by simp
    with p tl(2) nd show ?thesis by blast
  qed
qed

lemma lookup_walk_append:
  "lookup_walk K cur (xs @ ys) =
     (case lookup_walk K cur xs of None \<Rightarrow> None | Some y \<Rightarrow> lookup_walk K y ys)"
  by (induction xs arbitrary: cur) auto

lemma step_empty: "step cur [] = cur"
  by (simp add: step_def)

lemma lookup_walk_empties: "lookup_walk K y (replicate k []) = Some x \<Longrightarrow> x = y"
  by (induction k) (auto simp: step_empty split: if_splits)

lemma lookup_walk_empties_dir: "K y = Some KDir \<Longrightarrow> lookup_walk K y (replicate k []) = Some y"
  by (induction k) (auto simp: step_empty)

lemma resolves_drop_empties:
  assumes "resolves_dir K cur (cs @ replicate k [])"
  shows "resolves_dir K cur cs"
proof -
  from assms obtain x where x: "lookup_walk K cur (cs @ replicate k []) = Some x" "K x = Some KDir"
    by (auto simp: resolves_dir_def)
  from x(1) obtain y where y: "lookup_walk K cur cs = Some y"
    "lookup_walk K y (replicate k []) = Some x"
    by (auto simp: lookup_walk_append split: option.splits)
  from y(2) have "x = y" by (rule lookup_walk_empties)
  with x(2) y(1) show ?thesis by (auto simp: resolves_dir_def)
qed

lemma resolves_add_empty:
  assumes "resolves_dir K cur cs"
  shows "resolves_dir K cur (cs @ [[]])"
proof -
  from assms obtain x where x: "lookup_walk K cur cs = Some x" "K x = Some KDir"
    by (auto simp: resolves_dir_def)
  have "lookup_walk K x [[]] = Some x" using x(2) by (simp add: step_empty)
  with x show ?thesis by (auto simp: resolves_dir_def lookup_walk_append)
qed

lemma start_of_dirname:
  assumes "dirname p \<noteq> []"
  shows "start_of t (dirname p) = start_of t p"
proof -
  from dirname_cases[OF assms] obtain h tl where
    p: "p = h @ SLASH # tl" and
    c: "(\<exists>k. h = dirname p @ replicate k SLASH \<and> dirname p \<noteq> replicate (length (dirname p)) SLASH)
        \<or> (dirname p = h @ [SLASH] \<and> h = replicate (length h) SLASH)"
    by blast
  have "hd (dirname p) = hd p"
    using c
  proof
    assume "\<exists>k. h = dirname p @ replicate k SLASH \<and> dirname p \<noteq> replicate (length (dirname p)) SLASH"
    then obtain k where "h = dirname p @ replicate k SLASH" by blast
    with p have "p = dirname p @ (replicate k SLASH @ SLASH # tl)" by simp
    then have "hd p = hd (dirname p @ (replicate k SLASH @ SLASH # tl))" by simp
    also have "\<dots> = hd (dirname p)" using assms by (rule hd_append2)
    finally show ?thesis by simp
  next
    assume a: "dirname p = h @ [SLASH] \<and> h = replicate (length h) SLASH"
    then have "p = dirname p @ tl" using p by simp
    then have "hd p = hd (dirname p @ tl)" by simp
    also have "\<dots> = hd (dirname p)" using assms by (rule hd_append2)
    finally show ?thesis by simp
  qed
  moreover have "p \<noteq> []" using p by simp
  ultimately show ?thesis using assms by (simp add: start_of_def)
qed

lemma write_file_ok:
  assumes "write_file p c s = (None, s')"
  shows "p \<noteq> [] \<and>
         (\<exists>par. lookup_walk (kinds s) (start_of s p) (butlast (split SLASH p)) = Some par \<and>
                kinds s par = Some KDir \<and>
                last (split SLASH p) \<noteq> [] \<and> last (split SLASH p) \<noteq> [DOT] \<and>
                last (split SLASH p) \<noteq> [DOT, DOT] \<and>
                kinds s (par @ [last (split SLASH p)]) \<noteq> Some KDir \<and>
                s' = s\<lparr>kinds := (kinds s)(par @ [last (split SLASH p)] \<mapsto> KFile),
                       contents := (contents s)(par @ [last (split SLASH p)] := c)\<rparr>)"
  using assms by (auto simp: write_file_def split: if_splits option.splits)

lemma write_file_fail: "write_file p c s = (Some e, s') \<Longrightarrow> s' = s"
  by (auto simp: write_file_def split: if_splits option.splits)

lemma write_file_kinds_only:
  assumes "kinds t = kinds s" "cwd t = cwd s"
  shows "fst (write_file p c t) = fst (write_file p c s)"
  using assms by (auto simp: write_file_def start_of_def split: option.splits)

lemma write_ok_parent:
  assumes w: "write_file p c t = (None, t')" and d: "dirname p \<noteq> []"
  shows "resolves_dir (kinds t) (start_of t (dirname p)) (split SLASH (dirname p))"
proof -
  from dirname_cases[OF d] obtain h tl where
    p: "p = h @ SLASH # tl" and tl: "SLASH \<notin> set tl" and
    c: "(\<exists>k. h = dirname p @ replicate k SLASH \<and> dirname p \<noteq> replicate (length (dirname p)) SLASH)
        \<or> (dirname p = h @ [SLASH] \<and> h = replicate (length h) SLASH)"
    by blast
  have sp: "split SLASH p = split SLASH h @ [tl]"
    using p tl by (simp add: split_append_sep split_no_sep)
  then have bl: "butlast (split SLASH p) = split SLASH h" by simp
  from write_file_ok[OF w] obtain par where
    "lookup_walk (kinds t) (start_of t p) (split SLASH h) = Some par" "kinds t par = Some KDir"
    unfolding bl by blast
  then have r: "resolves_dir (kinds t) (start_of t p) (split SLASH h)"
    by (auto simp: resolves_dir_def)
  have st: "start_of t (dirname p) = start_of t p" using d by (rule start_of_dirname)
  from c show ?thesis
  proof
    assume "\<exists>k. h = dirname p @ replicate k SLASH \<and> dirname p \<noteq> replicate (length (dirname p)) SLASH"
    then obtain k where k: "h = dirname p @ replicate k SLASH" by blast
    have "split SLASH h = split SLASH (dirname p) @ replicate k []"
      by (subst k) (rule split_trailing_seps)
    with r have "resolves_dir (kinds t) (start_of t p) (split SLASH (dirname p) @ replicate k [])"
      by simp
    then have "resolves_dir (kinds t) (start_of t p) (split SLASH (dirname p))"
      by (rule resolves_drop_empties)
    then show ?thesis by (simp only: st)
  next
    assume a: "dirname p = h @ [SLASH] \<and> h = replicate (length h) SLASH"
    then have "split SLASH (dirname p) = split SLASH h @ [[]]"
      by (simp only: split_snoc_sep)
    moreover have "resolves_dir (kinds t) (start_of t p) (split SLASH h @ [[]])"
      using r by (rule resolves_add_empty)
    ultimately show ?thesis by (simp only: st)
  qed
qed

lemma sim_trans:
  assumes "sim s s1 t t1" "sim s1 s' t1 t'"
  shows "sim s s' t t'"
proof -
  have k: "kinds t' = kinds t" "cwd t' = cwd t" using assms by (simp_all add: sim_def)
  have "contents t' p = contents s' p \<or>
        (contents t' p = contents t p \<and> contents s' p = contents s p)" for p
  proof -
    from assms(1) have a: "contents t1 p = contents s1 p \<or>
        (contents t1 p = contents t p \<and> contents s1 p = contents s p)"
      by (simp add: sim_def)
    from assms(2) have b: "contents t' p = contents s' p \<or>
        (contents t' p = contents t1 p \<and> contents s' p = contents s1 p)"
      by (simp add: sim_def)
    from a b show ?thesis by auto
  qed
  with k show ?thesis by (simp add: sim_def)
qed

lemma makedirs_result:
  assumes "makedirs p s = (e, s')"
  shows "contents s' = contents s \<and> cwd s' = cwd s \<and>
         (p = [] \<longrightarrow> s' = s \<and> e = Some OSError) \<and>
         (p \<noteq> [] \<longrightarrow> mk_walk (kinds s) (start_of s p) (split SLASH p) = (e, kinds s') \<and>
                     s' = s\<lparr>kinds := kinds s'\<rparr>)"
  using assms by (auto simp: makedirs_def split: prod.splits if_splits)

lemma makedirs_mono: "mono_prog (makedirs p)"
proof -
  have "kinds_le (kinds s) (kinds s') \<and> cwd s' = cwd s" if m: "makedirs p s = (e, s')" for s e s'
  proof (cases "p = []")
    case True
    with makedirs_result[OF m] show ?thesis by (simp add: kinds_le_refl)
  next
    case False
    with makedirs_result[OF m] have
      "mk_walk (kinds s) (start_of s p) (split SLASH p) = (e, kinds s')" "cwd s' = cwd s"
      by simp_all
    then show ?thesis using mk_walk_mono by blast
  qed
  then show ?thesis by (simp add: mono_prog_def)
qed

lemma makedirs_replay_step:
  assumes m: "makedirs p s = (e, s')" and le: "kinds_le (kinds s') (kinds t)"
    and cw: "cwd t = cwd s" and er: "e \<noteq> None \<longrightarrow> kinds t = kinds s'"
  shows "makedirs p t = (e, t) \<and> sim s s' t t"
proof -
  have c: "contents s' = contents s" using makedirs_result[OF m] by simp
  have sm: "sim s s' t t" using c by (simp add: sim_def)
  show ?thesis
  proof (cases "p = []")
    case True
    then have "e = Some OSError" using makedirs_result[OF m] by simp
    with True sm show ?thesis by (simp add: makedirs_def)
  next
    case False
    have st: "start_of t p = start_of s p" using cw by (simp add: start_of_def)
    have w: "mk_walk (kinds s) (start_of s p) (split SLASH p) = (e, kinds s')"
      using makedirs_result[OF m] False by simp
    have "mk_walk (kinds t) (start_of s p) (split SLASH p) = (e, kinds t)"
      using w le er by (rule mk_walk_replay)
    then have "makedirs p t = (e, t)" using False st by (simp add: makedirs_def)
    with sm show ?thesis by simp
  qed
qed

lemma makedirs_replay: "replay_prog (makedirs p)"
  unfolding replay_prog_def using makedirs_replay_step by blast

lemma makedirs_fail_unresolved:
  assumes "makedirs p s = (Some e, s')" "p \<noteq> []"
  shows "\<not> resolves_dir (kinds s') (start_of s p) (split SLASH p)"
proof -
  have "mk_walk (kinds s) (start_of s p) (split SLASH p) = (Some e, kinds s')"
    using makedirs_result[OF assms(1)] assms(2) by simp
  from mk_walk_fail_unresolved[OF this] show ?thesis by (simp add: resolves_dir_def)
qed

lemma write_file_mono: "mono_prog (write_file p c)"
proof -
  have "kinds_le (kinds s) (kinds s') \<and> cwd s' = cwd s" if w: "write_file p c s = (e, s')" for s e s'
  proof (cases e)
    case None
    with w write_file_ok[of p c s s'] obtain par where
      nd: "kinds s (par @ [last (split SLASH p)]) \<noteq> Some KDir" and
      s': "s' = s\<lparr>kinds := (kinds s)(par @ [last (split SLASH p)] \<mapsto> KFile),
                   contents := (contents s)(par @ [last (split SLASH p)] := c)\<rparr>"
      by blast
    have "kinds_le (kinds s) ((kinds s)(par @ [last (split SLASH p)] \<mapsto> KFile))"
    proof -
      have "((kinds s)(par @ [last (split SLASH p)] \<mapsto> KFile)) q = Some k"
        if "kinds s q = Some k" for q k
      proof (cases "q = par @ [last (split SLASH p)]")
        case True
        with that nd have "k = KFile" by (cases k) auto
        with True show ?thesis by simp
      next
        case False
        with that show ?thesis by simp
      qed
      then show ?thesis by (simp add: kinds_le_def)
    qed
    with s' show ?thesis by simp
  next
    case (Some a)
    with w have "s' = s" using write_file_fail by blast
    then show ?thesis by (simp add: kinds_le_refl)
  qed
  then show ?thesis by (simp add: mono_prog_def)
qed

lemma write_file_replay_step:
  assumes w: "write_file p c s = (e, s')" and le: "kinds_le (kinds s') (kinds t)"
    and cw: "cwd t = cwd s" and er: "e \<noteq> None \<longrightarrow> kinds t = kinds s'"
  shows "\<exists>e' t'. write_file p c t = (e', t') \<and> (e' = None \<longleftrightarrow> e = None) \<and> sim s s' t t'"
proof (cases e)
  case (Some a)
  with w have s': "s' = s" using write_file_fail by blast
  with er Some have kt: "kinds t = kinds s" by simp
  have "fst (write_file p c t) = fst (write_file p c s)"
    using kt cw by (rule write_file_kinds_only)
  then have "fst (write_file p c t) = Some a" using w Some by simp
  then obtain t' where t': "write_file p c t = (Some a, t')"
    by (cases "write_file p c t") auto
  then have "t' = t" by (rule write_file_fail)
  with t' s' Some show ?thesis by (auto simp: sim_def)
next
  case None
  let ?n = "last (split SLASH p)"
  from w None write_file_ok[of p c s s'] obtain par where
    pne: "p \<noteq> []" and
    lw: "lookup_walk (kinds s) (start_of s p) (butlast (split SLASH p)) = Some par" and
    pd: "kinds s par = Some KDir" and
    n: "?n \<noteq> []" "?n \<noteq> [DOT]" "?n \<noteq> [DOT, DOT]" and
    s': "s' = s\<lparr>kinds := (kinds s)(par @ [?n] \<mapsto> KFile),
                 contents := (contents s)(par @ [?n] := c)\<rparr>"
    by blast
  have m: "kinds_le (kinds s) (kinds s')"
    using write_file_mono w by (auto simp: mono_prog_def)
  then have lt: "kinds_le (kinds s) (kinds t)" using le by (rule kinds_le_trans)
  have st: "start_of t p = start_of s p" using cw by (simp add: start_of_def)
  have lw': "lookup_walk (kinds t) (start_of t p) (butlast (split SLASH p)) = Some par"
    unfolding st using lt lw by (rule lookup_walk_mono)
  have pd': "kinds t par = Some KDir" using lt pd by (rule kinds_le_dir)
  have "kinds s' (par @ [?n]) = Some KFile" using s' by simp
  with le have tf: "kinds t (par @ [?n]) = Some KFile" by (simp add: kinds_le_def)
  then have same: "(kinds t)(par @ [?n] \<mapsto> KFile) = kinds t" by (rule_tac fun_upd_idem) simp
  have wt: "write_file p c t = (None, t\<lparr>contents := (contents t)(par @ [?n] := c)\<rparr>)"
    using pne lw' pd' n tf same by (simp add: write_file_def)
  have "sim s s' t (t\<lparr>contents := (contents t)(par @ [?n] := c)\<rparr>)"
    using s' by (simp add: sim_def)
  with wt None show ?thesis by blast
qed

lemma write_file_replay: "replay_prog (write_file p c)"
  unfolding replay_prog_def using write_file_replay_step by blast

lemma path_exists_mono:
  assumes "kinds_le (kinds s) (kinds t)" "cwd t = cwd s" "path_exists p s"
  shows "path_exists p t"
proof -
  from assms(3) obtain x where ne: "p \<noteq> []" and
    lw: "lookup_walk (kinds s) (start_of s p) (split SLASH p) = Some x" and
    kx: "kinds s x \<noteq> None"
    by (auto simp: path_exists_def split: option.splits)
  have st: "start_of t p = start_of s p" using assms(2) by (simp add: start_of_def)
  have "lookup_walk (kinds t) (start_of t p) (split SLASH p) = Some x"
    unfolding st using assms(1) lw by (rule lookup_walk_mono)
  moreover from kx obtain k where "kinds s x = Some k" by auto
  with assms(1) have "kinds t x = Some k" by (simp add: kinds_le_def)
  ultimately show ?thesis using ne by (simp add: path_exists_def)
qed

lemma then_do_mono:
  assumes "mono_prog P" "mono_prog Q"
  shows "mono_prog (then_do P Q)"
proof -
  have "kinds_le (kinds s) (kinds s') \<and> cwd s' = cwd s" if r: "then_do P Q s = (e, s')" for s e s'
  proof -
    obtain e1 s1 where p: "P s = (e1, s1)" by (cases "P s") auto
    with assms(1) have m1: "kinds_le (kinds s) (kinds s1)" "cwd s1 = cwd s"
      by (auto simp: mono_prog_def)
    show ?thesis
    proof (cases e1)
      case (Some a)
      with p r have "s' = s1" by (simp add: then_do_def)
      with m1 show ?thesis by simp
    next
      case None
      with p r have "Q s1 = (e, s')" by (simp add: then_do_def)
      with assms(2) have "kinds_le (kinds s1) (kinds s')" "cwd s' = cwd s1"
        by (auto simp: mono_prog_def)
      with m1 show ?thesis using kinds_le_trans by auto
    qed
  qed
  then show ?thesis by (simp add: mono_prog_def)
qed

lemma then_do_replay:
  assumes mp: "mono_prog P" and mq: "mono_prog Q" and rp: "replay_prog P" and rq: "replay_prog Q"
  shows "replay_prog (then_do P Q)"
proof -
  have "\<exists>e' t'. then_do P Q t = (e', t') \<and> (e' = None \<longleftrightarrow> e = None) \<and> sim s s' t t'"
    if r: "then_do P Q s = (e, s')" and le: "kinds_le (kinds s') (kinds t)"
      and cw: "cwd t = cwd s" and er: "e \<noteq> None \<longrightarrow> kinds t = kinds s'"
    for s e s' t
  proof -
    obtain e1 s1 where p: "P s = (e1, s1)" by (cases "P s") auto
    from mp p have m1: "kinds_le (kinds s) (kinds s1)" "cwd s1 = cwd s"
      by (auto simp: mono_prog_def)
    show ?thesis
    proof (cases e1)
      case (Some a)
      with p r have eq: "s' = s1" "e = Some a" by (simp_all add: then_do_def)
      have "\<exists>e' t'. P t = (e', t') \<and> (e' = None \<longleftrightarrow> e1 = None) \<and> sim s s1 t t'"
        using rp p le cw er eq Some unfolding replay_prog_def by blast
      then obtain e' t' where pt: "P t = (e', t')" "e' \<noteq> None" "sim s s1 t t'"
        using Some by auto
      from pt(2) obtain b where "e' = Some b" by auto
      with pt(1) have "then_do P Q t = (e', t')" by (simp add: then_do_def)
      with pt eq show ?thesis by auto
    next
      case None
      with p r have q: "Q s1 = (e, s')" by (simp add: then_do_def)
      from mq q have m2: "kinds_le (kinds s1) (kinds s')" "cwd s' = cwd s1"
        by (auto simp: mono_prog_def)
      have le1: "kinds_le (kinds s1) (kinds t)" using m2(1) le by (rule kinds_le_trans)
      have "\<exists>e' t'. P t = (e', t') \<and> (e' = None \<longleftrightarrow> e1 = None) \<and> sim s s1 t t'"
        using rp p le1 cw None unfolding replay_prog_def by blast
      then obtain t1 where pt: "P t = (None, t1)" "sim s s1 t t1"
        using None by auto
      have k1: "kinds t1 = kinds t" "cwd t1 = cwd t" using pt(2) by (simp_all add: sim_def)
      have le2: "kinds_le (kinds s') (kinds t1)" using le k1 by simp
      have cw2: "cwd t1 = cwd s1" using k1 cw m1 by simp
      have er2: "e \<noteq> None \<longrightarrow> kinds t1 = kinds s'" using er k1 by simp
      have "\<exists>e' t'. Q t1 = (e', t') \<and> (e' = None \<longleftrightarrow> e = None) \<and> sim s1 s' t1 t'"
        using rq q le2 cw2 er2 unfolding replay_prog_def by blast
      then obtain e' t' where qt: "Q t1 = (e', t')" "e' = None \<longleftrightarrow> e = None" "sim s1 s' t1 t'"
        by blast
      have "then_do P Q t = (e', t')" using pt(1) qt(1) by (simp add: then_do_def)
      moreover have "sim s s' t t'" using pt(2) qt(3) by (rule sim_trans)
      ultimately show ?thesis using qt(2) by blast
    qed
  qed
  then show ?thesis unfolding replay_prog_def by blast
qed

lemma skip_mono: "mono_prog (\<lambda>s. (None, s))"
  by (simp add: mono_prog_def kinds_le_refl)

lemma skip_replay: "replay_prog (\<lambda>s. (None, s))"
  by (auto simp: replay_prog_def sim_def)

lemma file_entry_unfold:
  "file_entry full c s =
     (if dirname full \<noteq> [] \<and> \<not> path_exists (dirname full) s
      then then_do (makedirs (dirname full)) (write_file full c) s
      else write_file full c s)"
  by (simp add: file_entry_def then_do_def split: prod.splits option.splits)

lemma file_entry_guard:
  "dirname full \<noteq> [] \<and> \<not> path_exists (dirname full) s \<Longrightarrow>
   file_entry full c s = then_do (makedirs (dirname full)) (write_file full c) s"
  by (simp add: file_entry_unfold)

lemma file_entry_skip:
  "\<not> (dirname full \<noteq> [] \<and> \<not> path_exists (dirname full) s) \<Longrightarrow>
   file_entry full c s = write_file full c s"
  by (simp only: file_entry_unfold if_False)

lemma create_structure_Dir:
  "create_structure base ((name, Dir m) # rest) =
     then_do (makedirs (path_join base name))
       (then_do (create_structure (path_join base name) m) (create_structure base rest))"
  by (rule ext) (simp add: then_do_def split: prod.splits option.splits)

lemma create_structure_File:
  "create_structure base ((name, File c) # rest) =
     then_do (file_entry (path_join base name) c) (create_structure base rest)"
  by (rule ext) (simp add: then_do_def file_entry_def split: prod.splits option.splits)

lemma create_structure_Nil: "create_structure base [] = (\<lambda>s. (None, s))"
  by (rule ext) simp

lemma file_entry_mono: "mono_prog (file_entry full c)"
proof -
  have a: "mono_prog (then_do (makedirs (dirname full)) (write_file full c))"
    using makedirs_mono write_file_mono by (rule then_do_mono)
  have b: "mono_prog (write_file full c)" by (rule write_file_mono)
  have "kinds_le (kinds s) (kinds s') \<and> cwd s' = cwd s" if r: "file_entry full c s = (e, s')"
    for s e s'
  proof (cases "dirname full \<noteq> [] \<and> \<not> path_exists (dirname full) s")
    case True
    then have "file_entry full c s = then_do (makedirs (dirname full)) (write_file full c) s"
      by (rule file_entry_guard)
    with r have "then_do (makedirs (dirname full)) (write_file full c) s = (e, s')"
      by simp
    with a show ?thesis unfolding mono_prog_def by blast
  next
    case False
    then have "file_entry full c s = write_file full c s"
      by (rule file_entry_skip)
    with r have "write_file full c s = (e, s')"
      by simp
    with b show ?thesis unfolding mono_prog_def by blast
  qed
  then show ?thesis unfolding mono_prog_def by blast
qed

lemma file_entry_replay: "replay_prog (file_entry full c)"
proof -
  let ?d = "dirname full"
  have a: "replay_prog (then_do (makedirs ?d) (write_file full c))"
    using makedirs_mono write_file_mono makedirs_replay write_file_replay by (rule then_do_replay)
  have "\<exists>e' t'. file_entry full c t = (e', t') \<and> (e' = None \<longleftrightarrow> e = None) \<and> sim s s' t t'"
    if r: "file_entry full c s = (e, s')" and le: "kinds_le (kinds s') (kinds t)"
      and cw: "cwd t = cwd s" and er: "e \<noteq> None \<longrightarrow> kinds t = kinds s'"
    for s e s' t
  proof (cases "?d \<noteq> [] \<and> \<not> path_exists ?d s")
    case False
    then have "file_entry full c s = write_file full c s"
      by (rule file_entry_skip)
    with r have w: "write_file full c s = (e, s')"
      by simp
    have "kinds_le (kinds s) (kinds s')"
      using write_file_mono w unfolding mono_prog_def by blast
    then have lt: "kinds_le (kinds s) (kinds t)" using le by (rule kinds_le_trans)
    have "\<not> (?d \<noteq> [] \<and> \<not> path_exists ?d t)"
      using False path_exists_mono[OF lt cw] by blast
    then have "file_entry full c t = write_file full c t"
      by (rule file_entry_skip)
    then show ?thesis using write_file_replay_step[OF w le cw er] by simp
  next
    case True
    then have "file_entry full c s = then_do (makedirs ?d) (write_file full c) s"
      by (rule file_entry_guard)
    with r have td: "then_do (makedirs ?d) (write_file full c) s = (e, s')"
      by simp
    show ?thesis
    proof (cases "?d \<noteq> [] \<and> \<not> path_exists ?d t")
      case gt: True
      then have "file_entry full c t = then_do (makedirs ?d) (write_file full c) t"
        by (rule file_entry_guard)
      moreover have "\<exists>e' t'. then_do (makedirs ?d) (write_file full c) t = (e', t') \<and>
          (e' = None \<longleftrightarrow> e = None) \<and> sim s s' t t'"
        using a td le cw er unfolding replay_prog_def by blast
      ultimately show ?thesis by simp
    next
      case gf: False
      then have ft: "file_entry full c t = write_file full c t"
        by (rule file_entry_skip)
      from True have dne: "?d \<noteq> []" by simp
      obtain e1 s1 where m: "makedirs ?d s = (e1, s1)" by (cases "makedirs ?d s") auto
      have c1: "contents s1 = contents s" "cwd s1 = cwd s"
        using makedirs_result[OF m] by simp_all
      show ?thesis
      proof (cases e1)
        case (Some a)
        with m td have eq: "s' = s1" "e = Some a" by (simp_all add: then_do_def)
        with er have kt: "kinds t = kinds s1" by simp
        have st: "start_of t ?d = start_of s ?d" using cw by (simp add: start_of_def)
        have nr: "\<not> resolves_dir (kinds t) (start_of t ?d) (split SLASH ?d)"
          using makedirs_fail_unresolved[OF m[unfolded Some] dne] kt st by simp
        obtain e' t' where wt: "write_file full c t = (e', t')"
          by (cases "write_file full c t") auto
        have "e' \<noteq> None"
        proof
          assume "e' = None"
          with wt have "write_file full c t = (None, t')" by simp
          then have "resolves_dir (kinds t) (start_of t ?d) (split SLASH ?d)"
            using dne by (rule write_ok_parent)
          with nr show False by contradiction
        qed
        then obtain b where b: "e' = Some b" by auto
        with wt have "t' = t" using write_file_fail by blast
        moreover have "sim s s1 t t" using c1 by (simp add: sim_def)
        ultimately show ?thesis using ft wt b eq by auto
      next
        case None
        with m td have w: "write_file full c s1 = (e, s')" by (simp add: then_do_def)
        have cw1: "cwd t = cwd s1" using cw c1 by simp
        from write_file_replay_step[OF w le cw1 er] obtain e' t' where
          wt: "write_file full c t = (e', t')" "e' = None \<longleftrightarrow> e = None" "sim s1 s' t t'"
          by blast
        have "sim s s' t t'" using wt(3) c1 by (simp add: sim_def)
        with ft wt show ?thesis by auto
      qed
    qed
  qed
  then show ?thesis unfolding replay_prog_def by blast
qed

lemma create_structure_props_list:
  assumes "\<And>name m' b. (name, Dir m') \<in> set entries \<Longrightarrow>
             mono_prog (create_structure b m') \<and> replay_prog (create_structure b m')"
  shows "mono_prog (create_structure base entries) \<and> replay_prog (create_structure base entries)"
  using assms
proof (induction entries)
  case Nil
  show ?case by (simp only: create_structure_Nil skip_mono skip_replay)
next
  case (Cons x entries)
  obtain name n where x: "x = (name, n)" by (cases x) auto
  have rest: "mono_prog (create_structure base entries) \<and>
              replay_prog (create_structure base entries)"
    using Cons.prems by (intro Cons.IH) auto
  show ?case
  proof (cases n)
    case (File c)
    have "mono_prog (then_do (file_entry (path_join base name) c) (create_structure base entries))"
      using file_entry_mono rest by (intro then_do_mono) auto
    moreover have
      "replay_prog (then_do (file_entry (path_join base name) c) (create_structure base entries))"
      using file_entry_mono file_entry_replay rest by (intro then_do_replay) auto
    ultimately show ?thesis by (simp only: x File create_structure_File)
  next
    case (Dir m)
    have sub: "mono_prog (create_structure (path_join base name) m) \<and>
               replay_prog (create_structure (path_join base name) m)"
      using Cons.prems[of name m] x Dir by simp
    have m2: "mono_prog (then_do (create_structure (path_join base name) m)
                (create_structure base entries))"
      using sub rest by (intro then_do_mono) auto
    have r2: "replay_prog (then_do (create_structure (path_join base name) m)
                (create_structure base entries))"
      using sub rest by (intro then_do_replay) auto
    have "mono_prog (then_do (makedirs (path_join base name))
            (then_do (create_structure (path_join base name) m) (create_structure base entries)))"
      using makedirs_mono m2 by (rule then_do_mono)
    moreover have "replay_prog (then_do (makedirs (path_join base name))
            (then_do (create_structure (path_join base name) m) (create_structure base entries)))"
      using makedirs_mono m2 makedirs_replay r2 by (rule then_do_replay)
    ultimately show ?thesis by (simp only: x Dir create_structure_Dir)
  qed
qed

lemma create_structure_props_node:
  "n = Dir m \<Longrightarrow>
   mono_prog (create_structure base m) \<and> replay_prog (create_structure base m)"
proof (induction n arbitrary: m base)
  case (File s)
  then show ?case by simp
next
  case (Dir entries)
  then have m: "m = entries" by simp
  have "mono_prog (create_structure b m') \<and> replay_prog (create_structure b m')"
    if "(name, Dir m') \<in> set entries" for name m' b
    using Dir.IH[of "(name, Dir m')" "Dir m'" m' b] that by simp
  then show ?case unfolding m by (rule create_structure_props_list)
qed

lemma fs_eqI:
  fixes a b :: fs
  assumes "kinds a = kinds b" "contents a = contents b" "cwd a = cwd b"
  shows "a = b"
  using assms by simp

section \<open>The counts of the summary\<close>















































section \<open>Claims\<close>

text \<open>
  C1 (the Path Parser returns the root mapping for every input and never raises, also
  when a later line uses a name recorded as a file as an intermediate segment):
  the code does raise. After the line \<open>a.txt\<close> has stored a file, the line \<open>a.txt/b\<close>
  walks into the stored string and assigns an item on it, which is a \<open>TypeError\<close>.
\<close>

theorem path_parser_raises_on_file_segment:
  "parse_folder_structure (py ''a.txt'' @ [NL] @ py ''a.txt/b'') = Inl TypeError"
  by (simp add: eval_defs)

text \<open>
  C2 (the final segment is handled asymmetrically): for every line that the loop body
  processes without raising, with \<open>clean_line\<close> its cleaned text. A line classified as a
  file leaves the empty string at its path, whatever was there. A line classified as a
  directory leaves an existing value at its path untouched, and where the path was
  absent it leaves a new empty mapping there (the one exception being a container that
  is itself a string, where nothing is stored). For a line without a slash the new root
  is given in full.
\<close>

theorem path_parser_final_segment_policy:
  assumes run: "path_line line (Dir m) = Inr root'"
    and clean: "clean_line = strip (replace_tree_chars (rstrip line))"
    and ne: "clean_line \<noteq> []"
  shows "(is_file_line clean_line \<longrightarrow>
            lookup_path root' (split SLASH clean_line) = Some (File [])) \<and>
         (\<not> is_file_line clean_line \<longrightarrow>
            (\<forall>v. lookup_path (Dir m) (split SLASH clean_line) = Some v \<longrightarrow>
                 lookup_path root' (split SLASH clean_line) = Some v) \<and>
            (lookup_path (Dir m) (split SLASH clean_line) = None \<longrightarrow>
               lookup_path root' (split SLASH clean_line) = Some (Dir []) \<or>
               (root' = Dir m \<and>
                (\<exists>s. lookup_path (Dir m) (butlast (split SLASH clean_line)) = Some (File s))))) \<and>
         (SLASH \<notin> set clean_line \<longrightarrow>
            root' = Dir (if is_file_line clean_line then dict_set m clean_line (File [])
                         else if dict_has m clean_line then m
                         else dict_set m clean_line (Dir [])))"
proof -
  have line_ne: "rstrip line \<noteq> []"
  proof
    assume "rstrip line = []"
    with clean have "clean_line = strip (replace_tree_chars [])" by simp
    with ne show False
      by (simp add: strip_def lstrip_def rstrip_def replace_tree_chars_def replace_def)
  qed
  have pe: "place_entry clean_line (Dir m) = Inr root'"
    using run clean ne line_ne by (simp add: path_line_def Let_def)
  show ?thesis
  proof (cases "SLASH \<in> set clean_line")
    case True
    then have w: "walk_parts (is_file_line clean_line) (split SLASH clean_line) (Dir m) = Inr root'"
      using pe by (simp add: place_entry_def)
    show ?thesis
      using True w walk_file[of "split SLASH clean_line" "Dir m" root']
        walk_dir_keep[of "split SLASH clean_line" "Dir m" root']
        walk_dir_new[of "split SLASH clean_line" "Dir m" root'] split_not_Nil[of SLASH clean_line]
      by (cases "is_file_line clean_line") auto
  next
    case False
    then have sp: "split SLASH clean_line = [clean_line]"
      by (rule split_no_sep)
    show ?thesis
      using False pe sp
      by (auto simp: place_entry_def dict_get_set_same dict_has_get dict_get_set_other
               split: if_splits option.splits)
  qed
qed

theorem path_parser_final_segment_policy_witness:
  "lookup_path (Dir [(py ''a'', Dir [(py ''b.c'', File [])])]) (split SLASH (py ''a/b.c'')) = Some (File []) \<and>
   lookup_path (Dir [(py ''a'', Dir [(py ''b'', File (py ''x''))])]) (split SLASH (py ''a/b'')) = Some (File (py ''x''))"
proof -
  have f: "path_line (py '' a/b.c '') (Dir [(py ''a'', Dir [(py ''b.c'', Dir [(py ''z'', Dir [])])])])
           = Inr (Dir [(py ''a'', Dir [(py ''b.c'', File [])])])"
    by (simp add: eval_defs)
  have fc: "py ''a/b.c'' = strip (replace_tree_chars (rstrip (py '' a/b.c '')))"
    by (simp add: eval_defs)
  have fn: "py ''a/b.c'' \<noteq> []" by (simp add: eval_defs)
  have ff: "is_file_line (py ''a/b.c'')" by (simp add: eval_defs)
  have d: "path_line (py ''a/b'') (Dir [(py ''a'', Dir [(py ''b'', File (py ''x''))])])
           = Inr (Dir [(py ''a'', Dir [(py ''b'', File (py ''x''))])])"
    by (simp add: eval_defs)
  have dc: "py ''a/b'' = strip (replace_tree_chars (rstrip (py ''a/b'')))"
    by (simp add: eval_defs)
  have dn: "py ''a/b'' \<noteq> []" by (simp add: eval_defs)
  have df: "\<not> is_file_line (py ''a/b'')" by (simp add: eval_defs)
  have dl: "lookup_path (Dir [(py ''a'', Dir [(py ''b'', File (py ''x''))])]) (split SLASH (py ''a/b''))
            = Some (File (py ''x''))" by (simp add: eval_defs)
  show ?thesis
    using path_parser_final_segment_policy[OF f fc fn] ff
      path_parser_final_segment_policy[OF d dc dn] df dl
    by blast
qed

text \<open>
  C3 (on a collision of a file and a directory the later line wins), as the code has
  it. In the Indent Parser every processed line stores its entry in the dictionary on
  top of the stack whatever was there: a directory line leaves a reference to a new
  empty dictionary under its name, a file line leaves the empty string. In the Path
  Parser a line classified as a file leaves the empty string at its path, also over a
  directory; but a line classified as a directory never replaces a file: a file found
  at its path, or at any prefix of it, is still there afterwards.
\<close>

theorem later_declaration_on_collision:
  "(tree_lines ls init_state = Inr st \<longrightarrow> clean_line = strip (re_sub_glyphs line) \<longrightarrow>
    clean_line \<noteq> [] \<longrightarrow>
      (\<exists>st1 a st'.
         pop_while (scan_indent line) st = Inr st1 \<and> last (stack st1) = Ref a \<and>
         tree_line line st = Inr st' \<and>
         (is_dir_line clean_line \<longrightarrow>
            dict_get (heap st' ! a) (rstrip_chars [SLASH] clean_line)
              = Some (Ref (length (heap st))) \<and>
            heap st' ! length (heap st) = []) \<and>
         (\<not> is_dir_line clean_line \<longrightarrow>
            dict_get (heap st' ! a) clean_line = Some (Str [])))) \<and>
   (path_line pline (Dir m) = Inr root' \<longrightarrow>
    pclean = strip (replace_tree_chars (rstrip pline)) \<longrightarrow> pclean \<noteq> [] \<longrightarrow>
      (is_file_line pclean \<longrightarrow>
         lookup_path root' (split SLASH pclean) = Some (File [])) \<and>
      (\<not> is_file_line pclean \<longrightarrow>
         (\<forall>n s. lookup_path (Dir m) (take n (split SLASH pclean)) = Some (File s) \<longrightarrow>
                lookup_path root' (take n (split SLASH pclean)) = Some (File s))))"
proof (intro conjI impI)
  assume reach: "tree_lines ls init_state = Inr st"
    and clean: "clean_line = strip (re_sub_glyphs line)" and ne: "clean_line \<noteq> []"
  have ok: "stack_ok st"
    using tree_lines_ok[OF stack_ok_init, of ls] reach by auto
  then have len: "length (path_stack st) = length (stack st)" by (simp add: stack_ok_def)
  let ?st1 = "st\<lparr>stack := take (Suc (scan_indent line)) (stack st),
                  path_stack := take (Suc (scan_indent line)) (path_stack st)\<rparr>"
  have pop: "pop_while (scan_indent line) st = Inr ?st1" by (rule pop_while_take[OF len])
  from tree_line_effect[OF ok, of line] clean ne obtain a st' where
    a: "last (stack ?st1) = Ref a" "a < length (heap st)" and
    tl: "tree_line line st = Inr st'" and
    d: "is_dir_line clean_line \<Longrightarrow>
          heap st' = (heap st)[a := dict_set (heap st ! a) (rstrip_chars [SLASH] clean_line)
                                      (Ref (length (heap st)))] @ [[]]" and
    f: "\<not> is_dir_line clean_line \<Longrightarrow>
          heap st' = (heap st)[a := dict_set (heap st ! a) clean_line (Str [])]"
    by auto
  have "is_dir_line clean_line \<longrightarrow>
            dict_get (heap st' ! a) (rstrip_chars [SLASH] clean_line)
              = Some (Ref (length (heap st))) \<and>
            heap st' ! length (heap st) = []"
    using d a(2) by (simp add: nth_append dict_get_set_same)
  moreover have "\<not> is_dir_line clean_line \<longrightarrow>
            dict_get (heap st' ! a) clean_line = Some (Str [])"
    using f a(2) by (simp add: dict_get_set_same)
  ultimately show "\<exists>st1 a st'.
         pop_while (scan_indent line) st = Inr st1 \<and> last (stack st1) = Ref a \<and>
         tree_line line st = Inr st' \<and>
         (is_dir_line clean_line \<longrightarrow>
            dict_get (heap st' ! a) (rstrip_chars [SLASH] clean_line)
              = Some (Ref (length (heap st))) \<and>
            heap st' ! length (heap st) = []) \<and>
         (\<not> is_dir_line clean_line \<longrightarrow>
            dict_get (heap st' ! a) clean_line = Some (Str []))"
    using pop a(1) tl by blast
next
  assume run: "path_line pline (Dir m) = Inr root'"
    and clean: "pclean = strip (replace_tree_chars (rstrip pline))" and ne: "pclean \<noteq> []"
  have ne': "strip (replace_tree_chars (rstrip pline)) \<noteq> []"
    using ne unfolding clean .
  have "path_line pline (Dir m) = place_entry pclean (Dir m)"
    unfolding clean using ne' by (rule path_line_processed)
  with run have pe: "place_entry pclean (Dir m) = Inr root'" by simp
  have w: "walk_parts (is_file_line pclean) (split SLASH pclean) (Dir m) = Inr root'"
    using pe split_no_sep[of SLASH pclean] by (auto simp: place_entry_def split: if_splits)
  {
    assume "is_file_line pclean"
    with w show "lookup_path root' (split SLASH pclean) = Some (File [])"
      using walk_file split_not_Nil by auto
  }
  {
    assume nf: "\<not> is_file_line pclean"
    show "\<forall>n s. lookup_path (Dir m) (take n (split SLASH pclean)) = Some (File s) \<longrightarrow>
                lookup_path root' (take n (split SLASH pclean)) = Some (File s)"
    proof (intro allI impI)
      fix n s
      assume l: "lookup_path (Dir m) (take n (split SLASH pclean)) = Some (File s)"
      show "lookup_path root' (take n (split SLASH pclean)) = Some (File s)"
      proof (cases "n < length (split SLASH pclean)")
        case True
        with w l show ?thesis by (rule walk_keeps_file)
      next
        case False
        then have "take n (split SLASH pclean) = split SLASH pclean" by simp
        with w l nf show ?thesis using walk_dir_keep by auto
      qed
    qed
  }
qed

text \<open>
  The claim C3 as stated fails in the Path Parser: after the line \<open>x.d\<close> has recorded a
  file, the line \<open>x.d/\<close>, classified as a directory, leaves the file in place.
\<close>

theorem later_declaration_counterexample:
  "parse_folder_structure (py ''x.d'' @ [NL] @ py ''x.d/'') = Inr (Dir [(py ''x.d'', File [])])"
  by (simp add: eval_defs)

theorem later_declaration_on_collision_witness:
  "(\<exists>st'. tree_line (py ''a.b/'') \<lparr>heap = [[(py ''a.b'', Str [])]], stack = [Ref 0], path_stack = [[]]\<rparr>
            = Inr st' \<and>
          dict_get (heap st' ! 0) (py ''a.b'') = Some (Ref 1) \<and> heap st' ! 1 = []) \<and>
   lookup_path (Dir [(py ''x.d'', File [])]) (split SLASH (py ''x.d'')) = Some (File []) \<and>
   lookup_path (Dir [(py ''x.d'', File [])]) (take 1 (split SLASH (py ''x.d/''))) = Some (File [])"
proof -
  let ?st = "\<lparr>heap = [[(py ''a.b'', Str [])]], stack = [Ref 0], path_stack = [[]]\<rparr>"
  have r: "tree_lines [py ''a.b''] init_state = Inr ?st" by (simp add: eval_defs)
  have c: "py ''a.b/'' = strip (re_sub_glyphs (py ''a.b/''))" by (simp add: eval_defs)
  have n: "py ''a.b/'' \<noteq> []" by (simp add: eval_defs)
  have d: "is_dir_line (py ''a.b/'')" by (simp add: eval_defs)
  have k: "rstrip_chars [SLASH] (py ''a.b/'') = py ''a.b''" by (simp add: eval_defs)
  have p: "pop_while (scan_indent (py ''a.b/'')) ?st = Inr ?st" by (simp add: eval_defs)
  have f1: "path_line (py ''x.d'') (Dir [(py ''x.d'', Dir [])]) = Inr (Dir [(py ''x.d'', File [])])"
    by (simp add: eval_defs)
  have fc: "py ''x.d'' = strip (replace_tree_chars (rstrip (py ''x.d'')))" by (simp add: eval_defs)
  have fn: "py ''x.d'' \<noteq> []" by (simp add: eval_defs)
  have ff: "is_file_line (py ''x.d'')" by (simp add: eval_defs)
  have g1: "path_line (py ''x.d/'') (Dir [(py ''x.d'', File [])]) = Inr (Dir [(py ''x.d'', File [])])"
    by (simp add: eval_defs)
  have gc: "py ''x.d/'' = strip (replace_tree_chars (rstrip (py ''x.d/'')))" by (simp add: eval_defs)
  have gn: "py ''x.d/'' \<noteq> []" by (simp add: eval_defs)
  have gf: "\<not> is_file_line (py ''x.d/'')" by (simp add: eval_defs)
  have gl: "lookup_path (Dir [(py ''x.d'', File [])]) (take 1 (split SLASH (py ''x.d/''))) = Some (File [])"
    by (simp add: eval_defs)
  note t1 = later_declaration_on_collision[of "[py ''a.b'']" ?st "py ''a.b/''" "py ''a.b/''",
      THEN conjunct1, rule_format, OF r c n]
  note t2 = later_declaration_on_collision[of _ _ _ _ "py ''x.d''" "[(py ''x.d'', Dir [])]"
      "Dir [(py ''x.d'', File [])]" "py ''x.d''", THEN conjunct2, rule_format, OF f1 fc fn]
  note t3 = later_declaration_on_collision[of _ _ _ _ "py ''x.d/''" "[(py ''x.d'', File [])]"
      "Dir [(py ''x.d'', File [])]" "py ''x.d/''", THEN conjunct2, rule_format, OF g1 gc gn]
  have a: "\<exists>st'. tree_line (py ''a.b/'') ?st = Inr st' \<and>
          dict_get (heap st' ! 0) (py ''a.b'') = Some (Ref 1) \<and> heap st' ! 1 = []"
    using t1 d k p by auto
  have b: "lookup_path (Dir [(py ''x.d'', File [])]) (split SLASH (py ''x.d'')) = Some (File [])"
    using t2 ff by blast
  have c3: "lookup_path (Dir [(py ''x.d'', File [])]) (take 1 (split SLASH (py ''x.d/''))) = Some (File [])"
    using t3 gf gl by blast
  from a b c3 show ?thesis by blast
qed

text \<open>
  C4 (what a directory line and a file line of the Indent Parser do): for a state \<open>st\<close>
  reached after any lines and a line whose cleaned text is not empty, the pops succeed
  and leave a reference \<open>a\<close> on top. A directory line allocates a new dictionary, which
  is empty, stores the reference to it in the dictionary at \<open>a\<close>, whatever was stored
  there before, and pushes it with its name. The key \<open>key\<close> it is stored under is the
  cleaned text without its trailing slashes: the cleaned text is \<open>key\<close> followed by
  slashes only, and \<open>key\<close> does not end in a slash. A file line stores the empty string
  under the cleaned text in the dictionary at \<open>a\<close>, allocates nothing and pushes
  nothing.
\<close>

theorem indent_parser_entry:
  assumes reach: "tree_lines ls init_state = Inr st"
    and clean: "clean_line = strip (re_sub_glyphs line)"
    and ne: "clean_line \<noteq> []"
  shows "\<exists>st1 a st'.
           pop_while (scan_indent line) st = Inr st1 \<and>
           stack st1 \<noteq> [] \<and> last (stack st1) = Ref a \<and> a < length (heap st) \<and>
           heap st1 = heap st \<and>
           tree_line line st = Inr st' \<and>
           (if is_dir_line clean_line
            then (\<exists>key k. clean_line = key @ replicate k SLASH \<and>
                   \<not> (key \<noteq> [] \<and> last key = SLASH) \<and>
                   key = rstrip_chars [SLASH] clean_line \<and>
                   length (heap st') = Suc (length (heap st)) \<and>
                   heap st' ! length (heap st) = [] \<and>
                   heap st' ! a = dict_set (heap st ! a) key (Ref (length (heap st))) \<and>
                   dict_get (heap st' ! a) key = Some (Ref (length (heap st))) \<and>
                   stack st' = stack st1 @ [Ref (length (heap st))] \<and>
                   path_stack st' = path_stack st1 @ [key])
            else length (heap st') = length (heap st) \<and>
                 heap st' ! a = dict_set (heap st ! a) clean_line (Str []) \<and>
                 dict_get (heap st' ! a) clean_line = Some (Str []) \<and>
                 stack st' = stack st1 \<and> path_stack st' = path_stack st1)"
proof -
  have ok: "stack_ok st"
    using tree_lines_ok[OF stack_ok_init, of ls] reach by auto
  then have len: "length (path_stack st) = length (stack st)"
    by (simp add: stack_ok_def)
  let ?st1 = "st\<lparr>stack := take (Suc (scan_indent line)) (stack st),
                  path_stack := take (Suc (scan_indent line)) (path_stack st)\<rparr>"
  have pop: "pop_while (scan_indent line) st = Inr ?st1"
    by (rule pop_while_take[OF len])
  have ok1: "stack_ok ?st1" by (rule stack_ok_take[OF ok])
  then obtain a where a: "last (stack ?st1) = Ref a" "a < length (heap ?st1)"
    using stack_ok_last by blast
  have ne1: "stack ?st1 \<noteq> []" using ok1 by (simp add: stack_ok_def)
  have tl: "tree_line line st = tree_entry clean_line ?st1"
    using tree_line_processed[OF ok, of line] clean ne by simp
  show ?thesis
  proof (cases "is_dir_line clean_line")
    case True
    let ?key = "rstrip_chars [SLASH] clean_line"
    obtain k where k: "clean_line = ?key @ replicate k SLASH"
      using rstrip_chars_decomp[of clean_line] by blast
    have nk: "\<not> (?key \<noteq> [] \<and> last ?key = SLASH)"
      using rstrip_chars_not_endswith[of clean_line] by (simp add: endswith_slash_def)
    have "tree_entry clean_line ?st1 =
       Inr (?st1\<lparr>heap := (heap ?st1)[a := dict_set (heap ?st1 ! a) ?key
                                      (Ref (length (heap ?st1)))] @ [[]],
             stack := stack ?st1 @ [Ref (length (heap ?st1))],
             path_stack := path_stack ?st1 @ [?key]\<rparr>)"
      by (rule tree_entry_dir[OF ok1 a(1) True])
    with tl have t: "tree_line line st =
       Inr (?st1\<lparr>heap := (heap ?st1)[a := dict_set (heap ?st1 ! a) ?key
                                      (Ref (length (heap ?st1)))] @ [[]],
             stack := stack ?st1 @ [Ref (length (heap ?st1))],
             path_stack := path_stack ?st1 @ [?key]\<rparr>)" by simp
    have inner: "\<exists>key k. clean_line = key @ replicate k SLASH \<and>
                   \<not> (key \<noteq> [] \<and> last key = SLASH) \<and>
                   key = rstrip_chars [SLASH] clean_line \<and>
                   length ((heap ?st1)[a := dict_set (heap ?st1 ! a) ?key
                                      (Ref (length (heap ?st1)))] @ [[]]) = Suc (length (heap st)) \<and>
                   ((heap ?st1)[a := dict_set (heap ?st1 ! a) ?key
                                      (Ref (length (heap ?st1)))] @ [[]]) ! length (heap st) = [] \<and>
                   ((heap ?st1)[a := dict_set (heap ?st1 ! a) ?key
                                      (Ref (length (heap ?st1)))] @ [[]]) ! a
                      = dict_set (heap st ! a) key (Ref (length (heap st))) \<and>
                   dict_get (((heap ?st1)[a := dict_set (heap ?st1 ! a) ?key
                                      (Ref (length (heap ?st1)))] @ [[]]) ! a) key
                      = Some (Ref (length (heap st)))"
      apply (rule exI[of _ ?key])
      apply (rule exI[of _ k])
      using k nk a by (simp add: nth_append dict_get_set_same)
    show ?thesis
      apply (rule exI[of _ ?st1])
      apply (rule exI[of _ a])
      apply (rule exI)
      using pop a ne1 True t inner by auto
  next
    case False
    have "tree_entry clean_line ?st1 =
       Inr (?st1\<lparr>heap := (heap ?st1)[a := dict_set (heap ?st1 ! a) clean_line (Str [])]\<rparr>)"
      by (rule tree_entry_file[OF ok1 a(1) False])
    with tl pop a ne1 False show ?thesis
      by (simp add: dict_get_set_same)
  qed
qed

theorem indent_parser_entry_witness:
  "(\<exists>st'. tree_line (py '' b.txt'')
           \<lparr>heap = [[(py ''a'', Ref 1)], []], stack = [Ref 0, Ref 1], path_stack = [[], py ''a'']\<rparr>
         = Inr st' \<and>
         dict_get (heap st' ! 1) (py ''b.txt'') = Some (Str []) \<and>
         stack st' = [Ref 0, Ref 1]) \<and>
   (\<exists>st'. tree_line (py '' b//'')
           \<lparr>heap = [[(py ''a'', Ref 1)], [(py ''b'', Ref 2)], [(py ''c.txt'', Str [])]],
            stack = [Ref 0, Ref 1, Ref 2], path_stack = [[], py ''a'', py ''b'']\<rparr>
         = Inr st' \<and>
         heap st' ! 1 = [(py ''b'', Ref 3)] \<and> heap st' ! 3 = [] \<and>
         stack st' = [Ref 0, Ref 1, Ref 3] \<and> path_stack st' = [[], py ''a'', py ''b''])"
proof -
  have r: "tree_lines [py ''a/''] init_state =
           Inr \<lparr>heap = [[(py ''a'', Ref 1)], []], stack = [Ref 0, Ref 1], path_stack = [[], py ''a'']\<rparr>"
    by (simp add: eval_defs)
  have c: "py ''b.txt'' = strip (re_sub_glyphs (py '' b.txt''))"
    by (simp add: eval_defs)
  have n: "py ''b.txt'' \<noteq> []" by (simp add: eval_defs)
  have f: "\<not> is_dir_line (py ''b.txt'')" by (simp add: eval_defs)
  have p: "pop_while (scan_indent (py '' b.txt''))
             \<lparr>heap = [[(py ''a'', Ref 1)], []], stack = [Ref 0, Ref 1], path_stack = [[], py ''a'']\<rparr>
           = Inr \<lparr>heap = [[(py ''a'', Ref 1)], []], stack = [Ref 0, Ref 1], path_stack = [[], py ''a'']\<rparr>"
    by (simp add: eval_defs)
  from indent_parser_entry[OF r c n] f p have A:
    "\<exists>st'. tree_line (py '' b.txt'')
           \<lparr>heap = [[(py ''a'', Ref 1)], []], stack = [Ref 0, Ref 1], path_stack = [[], py ''a'']\<rparr>
         = Inr st' \<and>
         dict_get (heap st' ! 1) (py ''b.txt'') = Some (Str []) \<and>
         stack st' = [Ref 0, Ref 1]" by auto
  let ?st = "\<lparr>heap = [[(py ''a'', Ref 1)], [(py ''b'', Ref 2)], [(py ''c.txt'', Str [])]],
            stack = [Ref 0, Ref 1, Ref 2], path_stack = [[], py ''a'', py ''b'']\<rparr>"
  have r2: "tree_lines [py ''a/'', py '' b/'', py ''  c.txt''] init_state = Inr ?st"
    by (simp add: eval_defs)
  have c2: "py ''b//'' = strip (re_sub_glyphs (py '' b//''))"
    by (simp add: eval_defs)
  have n2: "py ''b//'' \<noteq> []" by (simp add: eval_defs)
  have d2: "is_dir_line (py ''b//'')" by (simp add: eval_defs)
  have k2: "rstrip_chars [SLASH] (py ''b//'') = py ''b''" by (simp add: eval_defs)
  have p2: "pop_while (scan_indent (py '' b//'')) ?st
           = Inr (?st\<lparr>stack := [Ref 0, Ref 1], path_stack := [[], py ''a'']\<rparr>)"
    by (simp add: eval_defs)
  have h1: "dict_set [(py ''b'', Ref 2)] (py ''b'') (Ref 3) = [(py ''b'', Ref 3)]" by simp
  from indent_parser_entry[OF r2 c2 n2] d2 obtain st1 a st' key k where
    B: "pop_while (scan_indent (py '' b//'')) ?st = Inr st1"
       "last (stack st1) = Ref a" "tree_line (py '' b//'') ?st = Inr st'"
       "key = rstrip_chars [SLASH] (py ''b//'')"
       "length (heap st') = Suc (length (heap ?st))"
       "heap st' ! length (heap ?st) = []"
       "heap st' ! a = dict_set (heap ?st ! a) key (Ref (length (heap ?st)))"
       "stack st' = stack st1 @ [Ref (length (heap ?st))]"
       "path_stack st' = path_stack st1 @ [key]"
    by auto
  from B(1) p2 have s1: "st1 = ?st\<lparr>stack := [Ref 0, Ref 1], path_stack := [[], py ''a'']\<rparr>" by simp
  with B(2) have a1: "a = 1" by simp
  have key: "key = py ''b''" using B(4) k2 by simp
  have "heap st' ! 1 = [(py ''b'', Ref 3)]" using B(7) unfolding a1 key by simp
  moreover have "heap st' ! 3 = []" using B(6) by (simp add: numeral_3_eq_3)
  moreover have "stack st' = [Ref 0, Ref 1, Ref 3]" using B(8) unfolding s1 by simp
  moreover have "path_stack st' = [[], py ''a'', py ''b'']" using B(9) unfolding s1 key by simp
  ultimately have "\<exists>st'. tree_line (py '' b//'') ?st = Inr st' \<and>
         heap st' ! 1 = [(py ''b'', Ref 3)] \<and> heap st' ! 3 = [] \<and>
         stack st' = [Ref 0, Ref 1, Ref 3] \<and> path_stack st' = [[], py ''a'', py ''b'']"
    using B(3) by blast
  with A show ?thesis by (rule conjI)
qed

text \<open>
  C5 (the Indent Parser raises nothing, its stack keeps the root entry, and it returns
  the root): every input text is parsed to a heap and the reference to address 0, the
  dictionary allocated before the loop. After every number of lines the stack is not
  empty and has the root at the bottom, and from there the pop loop, for any indent,
  ends without error with a stack of \<open>min (length stack) (indent + 1)\<close> entries, so it
  never takes the root entry.
\<close>

theorem indent_parser_total:
  "(\<exists>h. parse_tree_structure text_input = Inr (h, Ref 0) \<and> h \<noteq> []) \<and>
   (\<forall>n. \<exists>st. tree_lines (take n (split NL (strip text_input))) init_state = Inr st \<and>
              stack st \<noteq> [] \<and> hd (stack st) = Ref 0 \<and>
              (\<forall>indent. \<exists>st1. pop_while indent st = Inr st1 \<and>
                   length (stack st1) = min (length (stack st)) (Suc indent) \<and>
                   stack st1 \<noteq> [] \<and> hd (stack st1) = Ref 0))"
proof (intro conjI allI)
  obtain st where st: "tree_lines (split NL (strip text_input)) init_state = Inr st" "stack_ok st"
    using tree_lines_ok[OF stack_ok_init] by blast
  then obtain vs where "stack st = Ref 0 # vs" "heap st \<noteq> []"
    by (cases "stack st") (auto simp: stack_ok_def)
  with st show "\<exists>h. parse_tree_structure text_input = Inr (h, Ref 0) \<and> h \<noteq> []"
    by (simp add: parse_tree_structure_def)
next
  fix n
  obtain st where st: "tree_lines (take n (split NL (strip text_input))) init_state = Inr st"
    "stack_ok st"
    using tree_lines_ok[OF stack_ok_init] by blast
  have "\<exists>st1. pop_while indent st = Inr st1 \<and>
              length (stack st1) = min (length (stack st)) (Suc indent) \<and>
              stack st1 \<noteq> [] \<and> hd (stack st1) = Ref 0" for indent
  proof -
    from st(2) have len: "length (path_stack st) = length (stack st)"
      by (simp add: stack_ok_def)
    from stack_ok_take[OF st(2), of indent] pop_while_take[OF len, of indent]
    show ?thesis by (auto simp: stack_ok_def min_def)
  qed
  with st show "\<exists>st. tree_lines (take n (split NL (strip text_input))) init_state = Inr st \<and>
              stack st \<noteq> [] \<and> hd (stack st) = Ref 0 \<and>
              (\<forall>indent. \<exists>st1. pop_while indent st = Inr st1 \<and>
                   length (stack st1) = min (length (stack st)) (Suc indent) \<and>
                   stack st1 \<noteq> [] \<and> hd (stack st1) = Ref 0)"
    by (auto simp: stack_ok_def)
qed

theorem indent_parser_total_witness:
  "\<exists>h. parse_tree_structure (py ''a/'' @ [NL] @ py '' b.txt'') = Inr (h, Ref 0) \<and> h \<noteq> []"
  using indent_parser_total[of "py ''a/'' @ [NL] @ py '' b.txt''"] by blast

text \<open>
  C6 (depth anchoring): when the input has exactly the three lines \<open>l1\<close>, \<open>l2\<close>, \<open>l3\<close>,
  none cleaned to the empty string, with strictly increasing scanned indentation, and
  the second is classified as a directory, then the dictionary created for the second
  line (at the address that was free after the first line, which is not the root
  address 0, and stored under the second line's name) holds exactly the entry of the
  third line at the end, and the root dictionary is as it was before the third line.
\<close>

theorem indent_parser_depth_anchoring:
  assumes lines: "split NL (strip text_input) = [l1, l2, l3]"
    and c1: "strip (re_sub_glyphs l1) \<noteq> []"
    and c2: "c2 = strip (re_sub_glyphs l2)" "c2 \<noteq> []"
    and c3: "c3 = strip (re_sub_glyphs l3)" "c3 \<noteq> []"
    and inc: "scan_indent l1 < scan_indent l2" "scan_indent l2 < scan_indent l3"
    and dir2: "is_dir_line c2"
  shows "\<exists>s1 s2 h p.
      tree_lines [l1] init_state = Inr s1 \<and>
      tree_lines [l1, l2] init_state = Inr s2 \<and>
      parse_tree_structure text_input = Inr (h, Ref 0) \<and>
      length (heap s1) \<noteq> 0 \<and>
      last (stack s1) = Ref p \<and>
      dict_get (heap s2 ! p) (rstrip_chars [SLASH] c2) = Some (Ref (length (heap s1))) \<and>
      heap s2 ! length (heap s1) = [] \<and>
      h ! length (heap s1) =
        [if is_dir_line c3 then (rstrip_chars [SLASH] c3, Ref (length (heap s2)))
         else (c3, Str [])] \<and>
      h ! 0 = heap s2 ! 0 \<and> h ! p = heap s2 ! p"
proof -
  have ok0: "stack_ok init_state" by (rule stack_ok_init)
  obtain s1 where s1: "tree_line l1 init_state = Inr s1" and ok1: "stack_ok s1"
    using tree_line_ok[OF ok0] by blast
  have "tree_line l1 init_state =
     Inr (if is_dir_line (strip (re_sub_glyphs l1))
          then init_state\<lparr>heap := (heap init_state)[0 := dict_set (heap init_state ! 0)
                                 (rstrip_chars [SLASH] (strip (re_sub_glyphs l1)))
                                 (Ref (length (heap init_state)))] @ [[]],
                  stack := stack init_state @ [Ref (length (heap init_state))],
                  path_stack := path_stack init_state @ [rstrip_chars [SLASH] (strip (re_sub_glyphs l1))]\<rparr>
          else init_state\<lparr>heap := (heap init_state)[0 := dict_set (heap init_state ! 0) (strip (re_sub_glyphs l1)) (Str [])]\<rparr>)"
    by (rule tree_line_step[OF ok0 c1]) (simp_all add: init_state_def)
  with s1 have len1: "length (stack s1) \<le> 2" "length (heap s1) = length (stack s1)"
      "stack s1 = map Ref [0..<length (stack s1)]" "length (stack s1) \<noteq> 0"
    by (auto simp: init_state_def split: if_splits)
  from ok1 obtain p where p: "last (stack s1) = Ref p" "p < length (heap s1)"
    using stack_ok_last by blast
  have deep2: "length (stack s1) \<le> Suc (scan_indent l2)"
    using len1(1) inc(1) by simp
  let ?a2 = "length (heap s1)"
  let ?n2 = "rstrip_chars [SLASH] c2"
  let ?s2 = "s1\<lparr>heap := (heap s1)[p := dict_set (heap s1 ! p) ?n2 (Ref ?a2)] @ [[]],
                 stack := stack s1 @ [Ref ?a2],
                 path_stack := path_stack s1 @ [?n2]\<rparr>"
  have s2: "tree_line l2 s1 = Inr ?s2"
    using tree_line_step[OF ok1 _ deep2 p(1)] c2 dir2 by simp
  have ok2: "stack_ok ?s2"
    using tree_line_ok[OF ok1, of l2] s2 by simp
  have deep3: "length (stack ?s2) \<le> Suc (scan_indent l3)"
    using len1(1) inc by simp
  have top2: "last (stack ?s2) = Ref ?a2" by simp
  let ?e3 = "if is_dir_line c3 then (rstrip_chars [SLASH] c3, Ref (length (heap ?s2)))
             else (c3, Str [])"
  obtain s3 where s3: "tree_line l3 ?s2 = Inr s3"
    and h3: "heap s3 ! ?a2 = [?e3]" "heap s3 ! 0 = heap ?s2 ! 0" "heap s3 ! p = heap ?s2 ! p"
    and st3: "hd (stack s3) = Ref 0" "stack s3 \<noteq> []"
  proof -
    have a0: "?a2 \<noteq> 0" "p \<noteq> ?a2" using len1 p by auto
    have hd0: "hd (stack s1) = Ref 0" "stack s1 \<noteq> []" using ok1 by (auto simp: stack_ok_def)
    show ?thesis
      using tree_line_step[OF ok2 _ deep3 top2] c3 a0 hd0 p(2)
      by (intro that[of "if is_dir_line c3
            then ?s2\<lparr>heap := (heap ?s2)[?a2 := dict_set (heap ?s2 ! ?a2)
                                 (rstrip_chars [SLASH] c3) (Ref (length (heap ?s2)))] @ [[]],
                  stack := stack ?s2 @ [Ref (length (heap ?s2))],
                  path_stack := path_stack ?s2 @ [rstrip_chars [SLASH] c3]\<rparr>
            else ?s2\<lparr>heap := (heap ?s2)[?a2 := dict_set (heap ?s2 ! ?a2) c3 (Str [])]\<rparr>"])
         (auto simp: nth_append)
  qed
  have run1: "tree_lines [l1] init_state = Inr s1" using s1 by simp
  have run2: "tree_lines [l1, l2] init_state = Inr ?s2" using s1 s2 by simp
  have run3: "tree_lines [l1, l2, l3] init_state = Inr s3" using s1 s2 s3 by simp
  have res: "parse_tree_structure text_input = Inr (heap s3, Ref 0)"
    using run3 lines st3 by (cases "stack s3") (auto simp: parse_tree_structure_def)
  have g2: "dict_get (heap ?s2 ! p) ?n2 = Some (Ref ?a2)" "heap ?s2 ! ?a2 = []"
    using p(2) by (simp_all add: nth_append dict_get_set_same)
  show ?thesis
    using run1 run2 res len1(2,4) p(1) g2 h3
    by (intro exI[of _ s1] exI[of _ ?s2] exI[of _ "heap s3"] exI[of _ p]) simp
qed

theorem indent_parser_depth_anchoring_witness:
  "\<exists>h. parse_tree_structure (py ''a/'' @ [NL] @ py '' b/'' @ [NL] @ py ''  c.txt'') = Inr (h, Ref 0) \<and>
       h ! 2 = [(py ''c.txt'', Str [])] \<and> h ! 0 = [(py ''a'', Ref 1)]"
proof -
  have l: "split NL (strip (py ''a/'' @ [NL] @ py '' b/'' @ [NL] @ py ''  c.txt''))
           = [py ''a/'', py '' b/'', py ''  c.txt'']"
    by (simp add: eval_defs)
  have c1: "strip (re_sub_glyphs (py ''a/'')) \<noteq> []" by (simp add: eval_defs)
  have c2: "py ''b/'' = strip (re_sub_glyphs (py '' b/''))" "py ''b/'' \<noteq> []"
    by (simp_all add: eval_defs)
  have c3: "py ''c.txt'' = strip (re_sub_glyphs (py ''  c.txt''))" "py ''c.txt'' \<noteq> []"
    by (simp_all add: eval_defs)
  have i: "scan_indent (py ''a/'') < scan_indent (py '' b/'')"
    "scan_indent (py '' b/'') < scan_indent (py ''  c.txt'')"
    by (simp_all add: eval_defs)
  have d: "is_dir_line (py ''b/'')" by (simp add: eval_defs)
  have f: "\<not> is_dir_line (py ''c.txt'')" by (simp add: eval_defs)
  have r1: "tree_lines [py ''a/''] init_state =
     Inr \<lparr>heap = [[(py ''a'', Ref 1)], []], stack = [Ref 0, Ref 1], path_stack = [[], py ''a'']\<rparr>"
    by (simp add: eval_defs)
  have r2: "tree_lines [py ''a/'', py '' b/''] init_state =
     Inr \<lparr>heap = [[(py ''a'', Ref 1)], [(py ''b'', Ref 2)], []], stack = [Ref 0, Ref 1, Ref 2],
          path_stack = [[], py ''a'', py ''b'']\<rparr>"
    by (simp add: eval_defs)
  from indent_parser_depth_anchoring[OF l c1 c2 c3 i d] f r1 r2 show ?thesis
    by (auto simp: numeral_2_eq_2)
qed

text \<open>
  C7 (every key is a non-empty string without a slash), as the code has it: every key
  of every mapping produced by the Path Parser is free of slashes, but it can be
  empty; every key stored by the Indent Parser, in any dictionary of the returned heap,
  does not end in a slash, and the key of a file is not empty, but a key can contain
  a slash elsewhere and the key of a directory can be empty.
\<close>

theorem parser_keys:
  "(parse_folder_structure text_input = Inr r \<longrightarrow> all_keys (\<lambda>k. SLASH \<notin> set k) r) \<and>
   (parse_tree_structure text_input = Inr (h, v) \<longrightarrow> heap_keys_ok h)"
proof (intro conjI impI)
  assume "parse_folder_structure text_input = Inr r"
  then have "path_lines (split NL (strip text_input)) (Dir []) = Inr r"
    by (simp add: parse_folder_structure_def)
  then show "all_keys (\<lambda>k. SLASH \<notin> set k) r"
    by (rule path_lines_all_keys) simp
next
  assume p: "parse_tree_structure text_input = Inr (h, v)"
  then obtain st where st: "tree_lines (split NL (strip text_input)) init_state = Inr st"
    and h: "h = heap st"
    by (auto simp: parse_tree_structure_def split: sum.splits list.splits)
  have "heap_keys_ok (heap init_state)"
    by (simp add: heap_keys_ok_def init_state_def)
  with stack_ok_init have "heap_keys_ok (heap st)" using st by (rule tree_lines_keys)
  with h show "heap_keys_ok h" by simp
qed

text \<open>
  The claim C7 as stated fails in both parsers: the path \<open>a/\<close> makes the Path Parser
  store the empty key inside \<open>a\<close>, the line \<open>a/b.txt\<close> makes the Indent Parser store
  a file under a key with a slash, and the line \<open>/\<close> makes it store a directory under
  the empty key.
\<close>

theorem parser_keys_counterexample:
  "parse_folder_structure (py ''a/'') = Inr (Dir [(py ''a'', Dir [([], Dir [])])]) \<and>
   \<not> all_keys name_ok (Dir [(py ''a'', Dir [([], Dir [])])]) \<and>
   parse_tree_structure (py ''a/b.txt'') = Inr ([[(py ''a/b.txt'', Str [])]], Ref 0) \<and>
   \<not> name_ok (py ''a/b.txt'') \<and>
   parse_tree_structure (py ''/'') = Inr ([[([], Ref 1)], []], Ref 0) \<and>
   \<not> name_ok []"
  by (simp add: eval_defs name_ok_def)

theorem parser_keys_witness:
  "all_keys (\<lambda>k. SLASH \<notin> set k) (Dir [(py ''a'', Dir [(py ''b.txt'', File [])])]) \<and>
   heap_keys_ok [[(py ''a'', Ref 1)], [(py ''b.txt'', Str [])]]"
proof -
  have p: "parse_folder_structure (py ''a/b.txt'')
           = Inr (Dir [(py ''a'', Dir [(py ''b.txt'', File [])])])"
    by (simp add: eval_defs)
  have t: "parse_tree_structure (py ''a/'' @ [NL] @ py '' b.txt'')
           = Inr ([[(py ''a'', Ref 1)], [(py ''b.txt'', Str [])]], Ref 0)"
    by (simp add: eval_defs)
  from parser_keys[of "py ''a/b.txt''" "Dir [(py ''a'', Dir [(py ''b.txt'', File [])])]"]
    parser_keys[of "py ''a/'' @ [NL] @ py '' b.txt''" _ "[[(py ''a'', Ref 1)], [(py ''b.txt'', Str [])]]" "Ref 0"]
    p t
  show ?thesis by blast
qed




text \<open>
  C9 (materialization is idempotent): for every Tree Model, every base path and every
  filesystem to start from, the empty target included, the second run of
  \<open>create_structure\<close> leaves the filesystem exactly as the first run has left it: the
  same directories, the same files, the same contents. It ends with an exception
  exactly if the first run did.
\<close>

theorem materialize_twice_same_state:
  "snd (create_structure base m (snd (create_structure base m s)))
     = snd (create_structure base m s) \<and>
   (fst (create_structure base m (snd (create_structure base m s))) = None
     \<longleftrightarrow> fst (create_structure base m s) = None)"
proof -
  obtain e s' where r: "create_structure base m s = (e, s')"
    by (cases "create_structure base m s") auto
  have mp: "mono_prog (create_structure base m)" and rp: "replay_prog (create_structure base m)"
    using create_structure_props_node[of "Dir m" m base] by simp_all
  have cw: "cwd s' = cwd s" using mp r unfolding mono_prog_def by blast
  have "\<exists>e' t'. create_structure base m s' = (e', t') \<and> (e' = None \<longleftrightarrow> e = None) \<and>
          sim s s' s' t'"
    using rp r cw kinds_le_refl[of "kinds s'"] unfolding replay_prog_def by blast
  then obtain e' t' where r2: "create_structure base m s' = (e', t')"
    "e' = None \<longleftrightarrow> e = None" "sim s s' s' t'"
    by blast
  have "contents t' = contents s'"
    using r2(3) by (auto simp: sim_def)
  moreover have "kinds t' = kinds s'" "cwd t' = cwd s'" using r2(3) by (simp_all add: sim_def)
  ultimately have "t' = s'" by (intro fs_eqI)
  with r r2 show ?thesis by simp
qed

theorem materialize_twice_same_state_witness:
  "snd (create_structure (py ''demo'') [(py ''src'', Dir [(py ''main.py'', File [])])]
         (snd (create_structure (py ''demo'') [(py ''src'', Dir [(py ''main.py'', File [])])] fs0)))
     = snd (create_structure (py ''demo'') [(py ''src'', Dir [(py ''main.py'', File [])])] fs0) \<and>
   fst (create_structure (py ''demo'') [(py ''src'', Dir [(py ''main.py'', File [])])] fs0) = None"
proof -
  have "fst (create_structure (py ''demo'') [(py ''src'', Dir [(py ''main.py'', File [])])] fs0) = None"
    by (simp add: eval_defs fs_defs)
  with materialize_twice_same_state
    [of "py ''demo''" "[(py ''src'', Dir [(py ''main.py'', File [])])]" fs0]
  show ?thesis by blast
qed




end
